theory Spec2Isabelle
  imports Main "HOL-Library.Signed_Division"
begin

unbundle bit_operations_syntax

section \<open>Outcomes of C code: results, faults, non-termination\<close>

text \<open>
  A C function of the program is modelled by a function into \<open>'a res\<close>:
  \<open>None\<close> means that the call does not return (a pointer loop that never meets its
  end), \<open>Some (Inl e)\<close> that the run is aborted (\<open>Assert_Fail\<close>: an \<^verbatim>\<open>assert\<close> of the
  source fails; \<open>Mem_Fault\<close>: the code dereferences \<^verbatim>\<open>NULL\<close> or reads or writes outside
  the array it indexes, which is undefined behaviour in C; \<open>Shift_Fault\<close>: a shift of an
  \<^verbatim>\<open>int\<close> whose result is undefined in C), and \<open>Some (Inr x)\<close> that it returns \<open>x\<close>.  Allocation is assumed to succeed (\<^verbatim>\<open>fatal\<close> is never reached).
\<close>

datatype error = Mem_Fault | Assert_Fail | Shift_Fault

type_synonym 'a res = "(error + 'a) option"

definition ok :: "'a \<Rightarrow> 'a res" where
  "ok x = Some (Inr x)"

definition fail :: "error \<Rightarrow> 'a res" where
  "fail e = Some (Inl e)"

definition bnd :: "'a res \<Rightarrow> ('a \<Rightarrow> 'b res) \<Rightarrow> 'b res" where
  "bnd m f = (case m of None \<Rightarrow> None | Some (Inl e) \<Rightarrow> Some (Inl e) | Some (Inr x) \<Rightarrow> f x)"

lemma bnd_simps [simp]:
  "bnd (ok x) f = f x" "bnd (fail e) f = fail e" "bnd None f = None"
  by (simp_all add: bnd_def ok_def fail_def)

lemma ok_fail_simps [simp]:
  "ok x = ok y \<longleftrightarrow> x = y" "ok x \<noteq> fail e" "fail e \<noteq> ok x" "ok x \<noteq> None" "fail e \<noteq> None"
  "None \<noteq> ok x" "None \<noteq> fail e" "fail e = fail e' \<longleftrightarrow> e = e'"
  by (auto simp: ok_def fail_def)

lemma bnd_mono [partial_function_mono]:
  assumes mf: "mono_option B" and mg: "\<And>y. mono_option (\<lambda>f. C y f)"
  shows "mono_option (\<lambda>f. bnd (B f) (\<lambda>y. C y f))"
proof -
  have eq: "\<And>f. bnd (B f) (\<lambda>y. C y f)
      = Option.bind (B f) (\<lambda>r. case r of Inl e \<Rightarrow> Some (Inl e) | Inr x \<Rightarrow> C x f)"
    by (auto simp: bnd_def split: option.splits sum.splits)
  have "\<And>r. mono_option (\<lambda>f. case r of Inl e \<Rightarrow> Some (Inl e) | Inr x \<Rightarrow> C x f)"
    subgoal for r by (cases r) (simp_all add: mg option.const_mono)
    done
  then show ?thesis
    unfolding eq by (intro bind_mono mf)
qed

lemma bnd_cong [fundef_cong]:
  "m = m' \<Longrightarrow> (\<And>x. m' = ok x \<Longrightarrow> f x = f' x) \<Longrightarrow> bnd m f = bnd m' f'"
  by (auto simp: bnd_def ok_def split: option.splits sum.splits)

text \<open>
  \<^verbatim>\<open>while (c) body\<close> over a loop state, and \<^verbatim>\<open>for (i = i0; i < n; i++) body\<close>.  The
  \<^verbatim>\<open>int\<close> counters of the source are natural numbers here, which is exact as long as
  they stay below \<open>2 ^ 31\<close>.
\<close>

partial_function (option) while_loop ::
  "('a \<Rightarrow> bool) \<Rightarrow> ('a \<Rightarrow> 'a res) \<Rightarrow> 'a \<Rightarrow> 'a res" where
  "while_loop c b x = (if c x then bnd (b x) (while_loop c b) else ok x)"

function for_loop :: "nat \<Rightarrow> nat \<Rightarrow> (nat \<Rightarrow> 'a \<Rightarrow> 'a res) \<Rightarrow> 'a \<Rightarrow> 'a res" where
  "for_loop i n b x = (if i < n then bnd (b i x) (for_loop (Suc i) n b) else ok x)"
  by pat_completeness auto
termination
  by (relation "measure (\<lambda>(i, n, b, x). n - i)") auto

declare for_loop.simps [simp del]

text \<open>Arithmetic of \<^verbatim>\<open>size_t\<close> (64 bits), where the source can wrap around.\<close>

definition usub :: "nat \<Rightarrow> nat \<Rightarrow> nat" where
  "usub a b = (a + 2 ^ 64 - b) mod 2 ^ 64"

definition uinc :: "nat \<Rightarrow> nat" where
  "uinc a = (a + 1) mod 2 ^ 64"

definition udec :: "nat \<Rightarrow> nat" where
  "udec a = usub a 1"

text \<open>
  The pseudo-random generator of the C library is a source of natural numbers
  (\<^verbatim>\<open>rand()\<close> never returns a negative number): the state is the sequence of the numbers
  still to come.
\<close>

type_synonym rng = "nat \<Rightarrow> nat"

definition rand :: "rng \<Rightarrow> nat \<times> rng" where
  "rand g = (g 0, \<lambda>i. g (Suc i))"

section \<open>The exact-cover solver (solver.c)\<close>

subsection \<open>Nodes and the node arena\<close>

text \<open>
  \<^verbatim>\<open>s->nodes\<close> is one array of \<^verbatim>\<open>struct node\<close>; every node pointer of the program points
  into it.  A pointer is \<open>None\<close> (\<^verbatim>\<open>NULL\<close>) or \<open>Some i\<close> (\<^verbatim>\<open>&nodes[i]\<close>).
\<close>

type_synonym ptr = "nat option"

record node =
  left :: ptr
  right :: ptr
  up :: ptr
  down :: ptr
  column :: ptr
  count :: nat
  rownum :: nat

datatype dlx_mode = DLX_RANDOM | DLX_UNIQUE

record solver =
  root :: ptr
  nodes :: "node list"
  solution :: "int list"
  solution_count :: nat
  solution_size :: nat
  mode :: dlx_mode
  nrows :: nat
  ncols :: nat

definition null_node :: node where
  "null_node = \<lparr>left = None, right = None, up = None, down = None, column = None,
     count = 0, rownum = 0\<rparr>"

definition deref :: "node list \<Rightarrow> ptr \<Rightarrow> node res" where
  "deref ns p = (case p of None \<Rightarrow> fail Mem_Fault
     | Some i \<Rightarrow> if i < length ns then ok (ns ! i) else fail Mem_Fault)"

definition assign :: "node list \<Rightarrow> ptr \<Rightarrow> (node \<Rightarrow> node) \<Rightarrow> node list res" where
  "assign ns p f = (case p of None \<Rightarrow> fail Mem_Fault
     | Some i \<Rightarrow> if i < length ns then ok (ns[i := f (ns ! i)]) else fail Mem_Fault)"

text \<open>Reading and writing an element of a plain C array.\<close>

definition arr_get :: "'a list \<Rightarrow> nat \<Rightarrow> 'a res" where
  "arr_get a i = (if i < length a then ok (a ! i) else fail Mem_Fault)"

definition arr_set :: "'a list \<Rightarrow> nat \<Rightarrow> 'a \<Rightarrow> 'a list res" where
  "arr_set a i v = (if i < length a then ok (a[i := v]) else fail Mem_Fault)"

subsection \<open>\<^verbatim>\<open>solver_create\<close> and \<^verbatim>\<open>solver_init_graph\<close>\<close>

definition solver_create :: "nat \<Rightarrow> nat \<Rightarrow> nat \<Rightarrow> solver" where
  "solver_create inuse nc nr =
     \<lparr>root = None, nodes = replicate (inuse + nc + 1) null_node, solution = [],
      solution_count = 0, solution_size = 0, mode = DLX_RANDOM, nrows = nr, ncols = nc\<rparr>"

text \<open>The loop that links the column headers \<open>1\<close> to \<open>ncols - 2\<close>.\<close>

definition link_headers :: "nat \<Rightarrow> node list \<Rightarrow> node list res" where
  "link_headers nc ns =
     for_loop 1 (usub nc 1) (\<lambda>col ns.
       bnd (assign ns (Some col) (\<lambda>n. n\<lparr>left := Some (col - 1)\<rparr>)) (\<lambda>ns.
       assign ns (Some col) (\<lambda>n. n\<lparr>right := Some (col + 1)\<rparr>))) ns"

text \<open>
  Pointer arithmetic: \<^verbatim>\<open>&nodes[i]\<close> is defined for the elements of the arena and for
  the position one past its end, and undefined beyond.  \<^verbatim>\<open>solver_init_graph\<close> forms one
  pointer that can lie beyond, \<^verbatim>\<open>&nodes[s->ncols-2]\<close>, whose index wraps around for
  fewer than two columns; every other pointer it forms is to an element that it also
  accesses, or at most one past the end.
\<close>

definition node_ptr :: "node list \<Rightarrow> nat \<Rightarrow> ptr res" where
  "node_ptr ns i = (if i \<le> length ns then ok (Some i) else fail Mem_Fault)"

text \<open>Linking the root in: the statements after the first loop.\<close>

definition link_root :: "nat \<Rightarrow> node list \<Rightarrow> node list res" where
  "link_root nc ns =
     (let rt = Some nc in
      bnd (assign ns rt (\<lambda>n. n\<lparr>right := Some 0\<rparr>)) (\<lambda>ns.
      bnd (assign ns (Some 0) (\<lambda>n. n\<lparr>left := rt\<rparr>)) (\<lambda>ns.
      bnd (assign ns (Some 0) (\<lambda>n. n\<lparr>right := Some 1\<rparr>)) (\<lambda>ns.
      bnd (node_ptr ns (usub nc 2)) (\<lambda>p.
      bnd (assign ns (Some (usub nc 1)) (\<lambda>n. n\<lparr>left := p\<rparr>)) (\<lambda>ns.
      bnd (assign ns (Some (usub nc 1)) (\<lambda>n. n\<lparr>right := rt\<rparr>)) (\<lambda>ns.
      assign ns rt (\<lambda>n. n\<lparr>left := Some (usub nc 1)\<rparr>))))))))"

text \<open>
  The body of the inner loop of the second pass: the loop state is the arena, the
  number of nodes used, the array \<^verbatim>\<open>used\<close> and the pointer \<^verbatim>\<open>current\<close>.
\<close>

definition add_cell ::
  "bool list \<Rightarrow> nat \<Rightarrow> nat \<Rightarrow> nat \<Rightarrow> node list \<times> nat \<times> ptr list \<times> ptr
     \<Rightarrow> (node list \<times> nat \<times> ptr list \<times> ptr) res" where
  "add_cell cells nc col row = (\<lambda>(ns, nodes_used, used, current).
     bnd (arr_get cells (row * nc + col)) (\<lambda>on.
     if on then
       (let n = Some nodes_used in
        bnd (assign ns current (\<lambda>c. c\<lparr>down := n\<rparr>)) (\<lambda>ns.
        bnd (assign ns n (\<lambda>m. m\<lparr>up := current\<rparr>)) (\<lambda>ns.
        bnd (assign ns n (\<lambda>m. m\<lparr>column := Some col\<rparr>)) (\<lambda>ns.
        bnd (assign ns (Some col) (\<lambda>h. h\<lparr>count := uinc (count h)\<rparr>)) (\<lambda>ns.
        bnd (assign ns n (\<lambda>m. m\<lparr>rownum := row\<rparr>)) (\<lambda>ns.
        bnd (arr_set used (row * nc + col) n) (\<lambda>used.
        ok (ns, Suc nodes_used, used, n))))))))
     else ok (ns, nodes_used, used, current)))"

definition build_column ::
  "bool list \<Rightarrow> nat \<Rightarrow> nat \<Rightarrow> nat \<Rightarrow> node list \<times> nat \<times> ptr list
     \<Rightarrow> (node list \<times> nat \<times> ptr list) res" where
  "build_column cells nc nr col = (\<lambda>(ns, nodes_used, used).
     bnd (for_loop 0 nr (add_cell cells nc col) (ns, nodes_used, used, Some col))
       (\<lambda>(ns, nodes_used, used, current).
     bnd (assign ns current (\<lambda>c. c\<lparr>down := Some col\<rparr>)) (\<lambda>ns.
     bnd (assign ns (Some col) (\<lambda>h. h\<lparr>up := current\<rparr>)) (\<lambda>ns.
     ok (ns, nodes_used, used)))))"

text \<open>The third pass: the loop state of a row is the arena, \<^verbatim>\<open>current\<close> and \<^verbatim>\<open>first\<close>.\<close>

definition link_cell ::
  "ptr list \<Rightarrow> nat \<Rightarrow> nat \<Rightarrow> nat \<Rightarrow> node list \<times> ptr \<times> ptr \<Rightarrow> (node list \<times> ptr \<times> ptr) res" where
  "link_cell used nc row col = (\<lambda>(ns, current, first).
     bnd (arr_get used (row * nc + col)) (\<lambda>n.
     if n \<noteq> None then
       (if first = None then ok (ns, n, n)
        else
          bnd (assign ns current (\<lambda>c. c\<lparr>right := n\<rparr>)) (\<lambda>ns.
          bnd (assign ns n (\<lambda>m. m\<lparr>left := current\<rparr>)) (\<lambda>ns.
          ok (ns, n, first))))
     else ok (ns, current, first)))"

definition build_row :: "ptr list \<Rightarrow> nat \<Rightarrow> nat \<Rightarrow> node list \<Rightarrow> node list res" where
  "build_row used nc row ns =
     bnd (for_loop 0 nc (link_cell used nc row) (ns, None, None)) (\<lambda>(ns, current, first).
     if first \<noteq> None then
       bnd (assign ns current (\<lambda>c. c\<lparr>right := first\<rparr>)) (\<lambda>ns.
       assign ns first (\<lambda>f. f\<lparr>left := current\<rparr>))
     else ok ns)"

text \<open>The last pass, run when \<^verbatim>\<open>strict\<close> is false: unlink the headers of empty columns.\<close>

definition drop_empty :: "nat \<Rightarrow> node list \<Rightarrow> node list res" where
  "drop_empty col ns =
     bnd (deref ns (Some col)) (\<lambda>h.
     if count h = 0 then
       bnd (assign ns (left h) (\<lambda>l. l\<lparr>right := right h\<rparr>)) (\<lambda>ns.
       bnd (deref ns (Some col)) (\<lambda>h.
       assign ns (right h) (\<lambda>r. r\<lparr>left := left h\<rparr>)))
     else ok ns)"

definition solver_init_graph :: "solver \<Rightarrow> bool list \<Rightarrow> bool \<Rightarrow> solver res" where
  "solver_init_graph s cells strict =
     (let nc = ncols s; nr = nrows s in
      bnd (link_headers nc (nodes s)) (\<lambda>ns.
      bnd (link_root nc ns) (\<lambda>ns.
      bnd (for_loop 0 nc (build_column cells nc nr) (ns, Suc nc, replicate (nc * nr) None))
        (\<lambda>(ns, nodes_used, used).
      bnd (for_loop 0 nr (build_row used nc) ns) (\<lambda>ns.
      bnd (if \<not> strict then for_loop 0 nc drop_empty ns else ok ns) (\<lambda>ns.
      ok (s\<lparr>root := Some nc, nodes := ns\<rparr>)))))))"

subsection \<open>\<^verbatim>\<open>cover\<close> and \<^verbatim>\<open>uncover\<close>\<close>

text \<open>
  The inner loop of \<^verbatim>\<open>cover\<close> walks the row of \<open>row\<close> to the right, from \<open>n\<close>; the
  loop state is the arena and \<open>n\<close>.  Every statement reads the arena as the statements
  before it left it.
\<close>

definition cover_node :: "node list \<times> ptr \<Rightarrow> (node list \<times> ptr) res" where
  "cover_node = (\<lambda>(ns, n).
     bnd (deref ns n) (\<lambda>m.
     bnd (assign ns (up m) (\<lambda>u. u\<lparr>down := down m\<rparr>)) (\<lambda>ns.
     bnd (deref ns n) (\<lambda>m.
     bnd (assign ns (down m) (\<lambda>d. d\<lparr>up := up m\<rparr>)) (\<lambda>ns.
     bnd (deref ns n) (\<lambda>m.
     bnd (assign ns (column m) (\<lambda>c. c\<lparr>count := udec (count c)\<rparr>)) (\<lambda>ns.
     bnd (deref ns n) (\<lambda>m.
     ok (ns, right m)))))))))"

definition cover_row :: "node list \<times> ptr \<Rightarrow> (node list \<times> ptr) res" where
  "cover_row = (\<lambda>(ns, row).
     bnd (deref ns row) (\<lambda>r.
     bnd (while_loop (\<lambda>(ns, n). n \<noteq> row) cover_node (ns, right r)) (\<lambda>(ns, n).
     bnd (deref ns row) (\<lambda>r.
     ok (ns, down r)))))"

definition cover :: "node list \<Rightarrow> ptr \<Rightarrow> node list res" where
  "cover ns col =
     bnd (deref ns col) (\<lambda>c.
     bnd (assign ns (left c) (\<lambda>l. l\<lparr>right := right c\<rparr>)) (\<lambda>ns.
     bnd (deref ns col) (\<lambda>c.
     bnd (assign ns (right c) (\<lambda>r. r\<lparr>left := left c\<rparr>)) (\<lambda>ns.
     bnd (deref ns col) (\<lambda>c.
     bnd (while_loop (\<lambda>(ns, row). row \<noteq> col) cover_row (ns, down c)) (\<lambda>(ns, row).
     ok ns))))))"

definition uncover_node :: "node list \<times> ptr \<Rightarrow> (node list \<times> ptr) res" where
  "uncover_node = (\<lambda>(ns, n).
     bnd (deref ns n) (\<lambda>m.
     bnd (assign ns (up m) (\<lambda>u. u\<lparr>down := n\<rparr>)) (\<lambda>ns.
     bnd (deref ns n) (\<lambda>m.
     bnd (assign ns (down m) (\<lambda>d. d\<lparr>up := n\<rparr>)) (\<lambda>ns.
     bnd (deref ns n) (\<lambda>m.
     bnd (assign ns (column m) (\<lambda>c. c\<lparr>count := uinc (count c)\<rparr>)) (\<lambda>ns.
     bnd (deref ns n) (\<lambda>m.
     ok (ns, left m)))))))))"

definition uncover_row :: "node list \<times> ptr \<Rightarrow> (node list \<times> ptr) res" where
  "uncover_row = (\<lambda>(ns, row).
     bnd (deref ns row) (\<lambda>r.
     bnd (while_loop (\<lambda>(ns, n). n \<noteq> row) uncover_node (ns, left r)) (\<lambda>(ns, n).
     bnd (deref ns row) (\<lambda>r.
     ok (ns, up r)))))"

definition uncover :: "node list \<Rightarrow> ptr \<Rightarrow> node list res" where
  "uncover ns col =
     bnd (deref ns col) (\<lambda>c.
     bnd (while_loop (\<lambda>(ns, row). row \<noteq> col) uncover_row (ns, up c)) (\<lambda>(ns, row).
     bnd (deref ns col) (\<lambda>c.
     bnd (assign ns (left c) (\<lambda>l. l\<lparr>right := col\<rparr>)) (\<lambda>ns.
     bnd (deref ns col) (\<lambda>c.
     assign ns (right c) (\<lambda>r. r\<lparr>left := col\<rparr>))))))"

subsection \<open>\<^verbatim>\<open>search\<close> and \<^verbatim>\<open>solver_run\<close>\<close>

text \<open>
  The loop of \<^verbatim>\<open>search\<close> that chooses the column with the least count; the loop state
  is \<^verbatim>\<open>column\<close>, \<^verbatim>\<open>min\<close> and \<^verbatim>\<open>c\<close>.
\<close>

definition choose_step :: "node list \<Rightarrow> ptr \<times> nat \<times> ptr \<Rightarrow> (ptr \<times> nat \<times> ptr) res" where
  "choose_step ns = (\<lambda>(col, m, c).
     bnd (deref ns c) (\<lambda>cn.
     if count cn < m then ok (c, count cn, right cn) else ok (col, m, right cn)))"

definition choose_column :: "node list \<Rightarrow> ptr \<Rightarrow> ptr res" where
  "choose_column ns rt =
     bnd (deref ns rt) (\<lambda>r.
     bnd (deref ns (right r)) (\<lambda>c0.
     bnd (while_loop (\<lambda>(col, m, c). c \<noteq> rt) (choose_step ns) (right r, count c0, right c0))
       (\<lambda>(col, m, c). ok col)))"

text \<open>
  The rows of the covered column are stored in the array \<^verbatim>\<open>rows\<close> of \<^verbatim>\<open>count\<close>
  elements; an element that the loop does not write is indeterminate in C, and \<open>None\<close>
  here.  The loop state is the array, \<^verbatim>\<open>i\<close> and \<^verbatim>\<open>row\<close>.
\<close>

definition collect_step :: "node list \<Rightarrow> ptr list \<times> nat \<times> ptr \<Rightarrow> (ptr list \<times> nat \<times> ptr) res" where
  "collect_step ns = (\<lambda>(rows, i, row).
     bnd (arr_set rows i row) (\<lambda>rows.
     bnd (deref ns row) (\<lambda>r.
     ok (rows, Suc i, down r))))"

definition collect_rows :: "node list \<Rightarrow> ptr \<Rightarrow> nat \<Rightarrow> ptr list res" where
  "collect_rows ns col cnt =
     bnd (deref ns col) (\<lambda>c.
     bnd (while_loop (\<lambda>(rows, i, row). row \<noteq> col) (collect_step ns)
            (replicate cnt None, 0, down c)) (\<lambda>(rows, i, row).
     ok rows))"

text \<open>
  The shuffle loop \<^verbatim>\<open>for (i = n - 1; i >= 1; i--)\<close>, used by \<^verbatim>\<open>search\<close> on the array
  of rows and by \<^verbatim>\<open>shuffle\<close> of util.c on an array of integers; \<open>shuffle_from i\<close> is
  the loop from the index \<open>i\<close> downwards.
\<close>

fun shuffle_from :: "nat \<Rightarrow> 'a list \<Rightarrow> rng \<Rightarrow> ('a list \<times> rng) res" where
  "shuffle_from 0 a g = ok (a, g)"
| "shuffle_from (Suc i) a g =
     (let (r, g) = rand g; j = r mod (Suc i + 1) in
      bnd (arr_get a (Suc i)) (\<lambda>tmp.
      bnd (arr_get a j) (\<lambda>aj.
      bnd (arr_set a (Suc i) aj) (\<lambda>a.
      bnd (arr_set a j tmp) (\<lambda>a.
      shuffle_from i a g)))))"

text \<open>The two loops of \<^verbatim>\<open>search\<close> that cover and uncover the other columns of a row.\<close>

definition cover_other :: "node list \<times> ptr \<Rightarrow> (node list \<times> ptr) res" where
  "cover_other = (\<lambda>(ns, c).
     bnd (deref ns c) (\<lambda>cn.
     bnd (cover ns (column cn)) (\<lambda>ns.
     bnd (deref ns c) (\<lambda>cn.
     ok (ns, right cn)))))"

definition cover_others :: "node list \<Rightarrow> ptr \<Rightarrow> node list res" where
  "cover_others ns row =
     bnd (deref ns row) (\<lambda>r.
     bnd (while_loop (\<lambda>(ns, c). c \<noteq> row) cover_other (ns, right r)) (\<lambda>(ns, c).
     ok ns))"

definition uncover_other :: "node list \<times> ptr \<Rightarrow> (node list \<times> ptr) res" where
  "uncover_other = (\<lambda>(ns, c).
     bnd (deref ns c) (\<lambda>cn.
     bnd (uncover ns (column cn)) (\<lambda>ns.
     bnd (deref ns c) (\<lambda>cn.
     ok (ns, left cn)))))"

definition uncover_others :: "node list \<Rightarrow> ptr \<Rightarrow> node list res" where
  "uncover_others ns row =
     bnd (deref ns row) (\<lambda>r.
     bnd (while_loop (\<lambda>(ns, c). c \<noteq> row) uncover_other (ns, left r)) (\<lambda>(ns, c).
     ok ns))"

text \<open>
  The loop \<^verbatim>\<open>for (i = 0; i < count; i++)\<close> of \<^verbatim>\<open>search\<close> over the array of rows, with
  the recursive call \<^verbatim>\<open>search(s, k+1)\<close> as the parameter \<open>rec\<close>.  The result is the
  value that \<^verbatim>\<open>search\<close> returns from inside the loop (\<open>True\<close>), or \<open>False\<close> when the loop
  ends.
\<close>

fun try_rows ::
  "(solver \<times> rng \<Rightarrow> (bool \<times> solver \<times> rng) res) \<Rightarrow> nat \<Rightarrow> ptr list \<Rightarrow> solver \<Rightarrow> rng
     \<Rightarrow> (bool \<times> solver \<times> rng) res" where
  "try_rows rec k [] s g = ok (False, s, g)"
| "try_rows rec k (row # rows) s g =
     bnd (deref (nodes s) row) (\<lambda>r.
     bnd (arr_set (solution s) k (int (rownum r))) (\<lambda>sol.
     bnd (cover_others (nodes s) row) (\<lambda>ns.
     bnd (rec (s\<lparr>nodes := ns, solution := sol\<rparr>, g)) (\<lambda>(found, s, g).
     if found then ok (True, s, g)
     else
       bnd (uncover_others (nodes s) row) (\<lambda>ns.
       try_rows rec k rows (s\<lparr>nodes := ns\<rparr>) g)))))"

lemma try_rows_mono [partial_function_mono]:
  assumes "\<And>x. mono_option (\<lambda>f. R f x)"
  shows "mono_option (\<lambda>f. try_rows (R f) k rows s g)"
proof (induction rows arbitrary: s g)
  case Nil
  show ?case by (simp add: option.const_mono)
next
  case (Cons row rows)
  show ?case
    unfolding try_rows.simps
    by (intro bnd_mono option.const_mono assms)
       (auto split: prod.splits intro!: partial_function_mono Cons.IH)
qed

partial_function (option) search :: "solver \<Rightarrow> nat \<Rightarrow> rng \<Rightarrow> (bool \<times> solver \<times> rng) res" where
  "search s k g =
     (if root s = None then fail Assert_Fail
      else if \<not> k < solution_size s then fail Assert_Fail
      else
        bnd (deref (nodes s) (root s)) (\<lambda>r.
        if right r = root s then
          (let s = s\<lparr>solution_count := uinc (solution_count s)\<rparr> in
           ok (mode s = DLX_RANDOM \<or> (mode s = DLX_UNIQUE \<and> solution_count s > 1), s, g))
        else
          bnd (choose_column (nodes s) (root s)) (\<lambda>col.
          bnd (cover (nodes s) col) (\<lambda>ns.
          bnd (deref ns col) (\<lambda>c.
          let s = s\<lparr>nodes := ns\<rparr>; cnt = count c in
          bnd (if cnt > 0 then
                 bnd (collect_rows ns col cnt) (\<lambda>rows.
                 bnd (if mode s = DLX_RANDOM then shuffle_from (cnt - 1) rows g else ok (rows, g))
                   (\<lambda>(rows, g).
                 try_rows (\<lambda>(s, g). search s (Suc k) g) k rows s g))
               else ok (False, s, g)) (\<lambda>(found, s, g).
          if found then ok (True, s, g)
          else
            bnd (uncover (nodes s) col) (\<lambda>ns.
            ok (False, s\<lparr>nodes := ns\<rparr>, g))))))))"

definition solver_run ::
  "solver \<Rightarrow> dlx_mode \<Rightarrow> int list \<Rightarrow> nat \<Rightarrow> rng \<Rightarrow> (bool \<times> solver \<times> rng) res" where
  "solver_run s search_mode sol sz g =
     (let s = s\<lparr>mode := search_mode, solution := sol, solution_size := sz,
                solution_count := 0\<rparr> in
      bnd (for_loop 0 sz (\<lambda>i sol. arr_set sol i (- 1)) (solution s)) (\<lambda>sol.
      bnd (search (s\<lparr>solution := sol\<rparr>) 0 g) (\<lambda>(found, s, g).
      if mode s = DLX_RANDOM then ok (found, s, g)
      else ok (solution_count s = 1, s, g))))"

section \<open>Sudoku geometry and the DLX row encoding (sudoku.c)\<close>

text \<open>
  The macros of \<^verbatim>\<open>sudoku.c\<close> work on C \<^verbatim>\<open>int\<close>s; they are modelled on \<^typ>\<open>int\<close>,
  with C's truncating division and remainder (\<open>sdiv\<close>, \<open>smod\<close>).  All values that
  occur are far below \<open>2 ^ 31\<close>, so no wrap-around arises in them.
\<close>

definition SUDOKU_SIZE :: int where
  "SUDOKU_SIZE = 9"

definition GRID_SIZE :: int where
  "GRID_SIZE = SUDOKU_SIZE * SUDOKU_SIZE"

definition GRID_IDX :: "int \<Rightarrow> int \<Rightarrow> int" where
  "GRID_IDX x y = y * SUDOKU_SIZE + x"

definition GRID_X :: "int \<Rightarrow> int" where
  "GRID_X idx = idx smod SUDOKU_SIZE"

definition GRID_Y :: "int \<Rightarrow> int" where
  "GRID_Y idx = idx sdiv SUDOKU_SIZE"

definition SEC_IDX :: "int \<Rightarrow> int \<Rightarrow> int" where
  "SEC_IDX x y = (y sdiv 3) * 3 + x sdiv 3"

definition DLX_MAX_ROWS :: int where
  "DLX_MAX_ROWS = GRID_SIZE * SUDOKU_SIZE"

definition DLX_MAX_COLS :: int where
  "DLX_MAX_COLS = 4 * GRID_SIZE"

definition DLX_ROW :: "int \<Rightarrow> int \<Rightarrow> int \<Rightarrow> int" where
  "DLX_ROW v x y = GRID_SIZE * y + SUDOKU_SIZE * x + v"

definition DLX_COL1 :: "int \<Rightarrow> int \<Rightarrow> int \<Rightarrow> int" where
  "DLX_COL1 v x y = SUDOKU_SIZE * y + x"

definition DLX_COL2 :: "int \<Rightarrow> int \<Rightarrow> int \<Rightarrow> int" where
  "DLX_COL2 v x y = GRID_SIZE + SUDOKU_SIZE * y + v"

definition DLX_COL3 :: "int \<Rightarrow> int \<Rightarrow> int \<Rightarrow> int" where
  "DLX_COL3 v x y = 2 * GRID_SIZE + SUDOKU_SIZE * x + v"

definition DLX_COL4 :: "int \<Rightarrow> int \<Rightarrow> int \<Rightarrow> int" where
  "DLX_COL4 v x y = 3 * GRID_SIZE + SUDOKU_SIZE * SEC_IDX x y + v"

definition DLX_CELL_IDX :: "int \<Rightarrow> int \<Rightarrow> int" where
  "DLX_CELL_IDX r c = r * DLX_MAX_COLS + c"

definition DLX_X :: "int \<Rightarrow> int" where
  "DLX_X r = (r sdiv 9) smod 9"

definition DLX_Y :: "int \<Rightarrow> int" where
  "DLX_Y r = (r sdiv 9) sdiv 9"

definition DLX_V :: "int \<Rightarrow> int" where
  "DLX_V r = (r smod 9) + 1"

section \<open>The Sudoku layer (sudoku.c, util.c)\<close>

text \<open>
  A \<^verbatim>\<open>sudoku\<close> is a struct with one array of 81 cells of type \<^verbatim>\<open>uint8_t\<close>; a cell is a
  natural number here, and a C \<^verbatim>\<open>int\<close> that is stored into a cell is reduced modulo 256
  (\<open>to_value\<close>).  An array indexed by an \<^verbatim>\<open>int\<close> is read and written with
  \<open>arr_geti\<close> and \<open>arr_seti\<close>.  The shift \<^verbatim>\<open>1 << v\<close> of the \<^verbatim>\<open>int\<close> 1 by the value of a
  cell is \<open>shl1 v\<close>: it is \<open>push_bit v 1\<close> for \<open>v < 31\<close>, and undefined in C from 31 on,
  where the result does not fit an \<^verbatim>\<open>int\<close>.  The masks are values of type \<^verbatim>\<open>int\<close>
  below \<open>2 ^ 31\<close>, on which \<open>OR\<close>, \<open>AND\<close> and \<open>NOT\<close> of \<^typ>\<open>int\<close> are the operators of C.
\<close>

record sudoku =
  grid :: "nat list"

definition to_value :: "int \<Rightarrow> nat" where
  "to_value i = nat (i mod 256)"

definition shl1 :: "nat \<Rightarrow> int res" where
  "shl1 v = (if v < 31 then ok (push_bit v 1) else fail Shift_Fault)"

definition arr_geti :: "'a list \<Rightarrow> int \<Rightarrow> 'a res" where
  "arr_geti a i = (if 0 \<le> i \<and> nat i < length a then ok (a ! nat i) else fail Mem_Fault)"

definition arr_seti :: "'a list \<Rightarrow> int \<Rightarrow> 'a \<Rightarrow> 'a list res" where
  "arr_seti a i v = (if 0 \<le> i \<and> nat i < length a then ok (a[nat i := v]) else fail Mem_Fault)"

subsection \<open>\<^verbatim>\<open>shuffle\<close>, \<^verbatim>\<open>init_shuffled_array\<close>, \<^verbatim>\<open>seed\<close>\<close>

text \<open>
  \<^verbatim>\<open>shuffle(a, n)\<close> runs \<^verbatim>\<open>for (int i = n-1; i >= 1; i--)\<close>; for \<open>n = 0\<close> the
  counter starts at \<open>-1\<close> and the loop body never runs, as for \<open>n = 1\<close>.
\<close>

definition shuffle :: "int list \<Rightarrow> nat \<Rightarrow> rng \<Rightarrow> (int list \<times> rng) res" where
  "shuffle a n g = shuffle_from (n - 1) a g"

text \<open>
  \<^verbatim>\<open>init_shuffled_array\<close> fills the caller's array of \<open>n\<close> integers; the model returns
  the array.
\<close>

definition init_shuffled_array :: "nat \<Rightarrow> int \<Rightarrow> rng \<Rightarrow> (int list \<times> rng) res" where
  "init_shuffled_array n start g =
     bnd (for_loop 0 n (\<lambda>i numbers. arr_set numbers i (int i + start)) (replicate n 0))
       (\<lambda>numbers. shuffle numbers n g)"

definition seed :: "sudoku \<Rightarrow> rng \<Rightarrow> (sudoku \<times> rng) res" where
  "seed s g =
     bnd (init_shuffled_array (nat SUDOKU_SIZE) 1 g) (\<lambda>(numbers, g).
     bnd (for_loop 0 (nat SUDOKU_SIZE) (\<lambda>i gr.
            bnd (arr_get numbers i) (\<lambda>v.
            arr_seti gr (GRID_IDX (int i) 0) (to_value v)))
          (replicate (length (grid s)) 0)) (\<lambda>gr.
     ok (s\<lparr>grid := gr\<rparr>, g)))"

subsection \<open>\<^verbatim>\<open>get_section_idxs\<close>, \<^verbatim>\<open>get_masks\<close>, \<^verbatim>\<open>get_dlx_cells\<close>\<close>

definition get_section_idxs :: "int \<Rightarrow> int list" where
  "get_section_idxs sec_idx =
     map (\<lambda>i. GRID_IDX ((sec_idx smod 3) * 3 + int i smod 3) ((sec_idx sdiv 3) * 3 + int i sdiv 3))
       [0 ..< nat SUDOKU_SIZE]"

text \<open>The inner loop of \<^verbatim>\<open>get_masks\<close>; its state is the three masks of index \<open>i\<close>.\<close>

definition mask_step :: "nat list \<Rightarrow> int list \<Rightarrow> nat \<Rightarrow> nat \<Rightarrow> int \<times> int \<times> int
     \<Rightarrow> (int \<times> int \<times> int) res" where
  "mask_step gr sec_idxs i j = (\<lambda>(r, c, sc).
     bnd (arr_geti gr (GRID_IDX (int j) (int i))) (\<lambda>a.
     bnd (shl1 a) (\<lambda>ma.
     bnd (arr_geti gr (GRID_IDX (int i) (int j))) (\<lambda>b.
     bnd (shl1 b) (\<lambda>mb.
     bnd (arr_get sec_idxs j) (\<lambda>si.
     bnd (arr_geti gr si) (\<lambda>d.
     bnd (shl1 d) (\<lambda>md.
     ok (r OR ma, c OR mb, sc OR md)))))))))"

definition get_masks :: "sudoku \<Rightarrow> (int list \<times> int list \<times> int list) res" where
  "get_masks s =
     for_loop 0 (nat SUDOKU_SIZE) (\<lambda>i (rows, cols, secs).
       bnd (for_loop 0 (nat SUDOKU_SIZE) (mask_step (grid s) (get_section_idxs (int i)) i) (0, 0, 0))
         (\<lambda>(r, c, sc).
       bnd (arr_set rows i r) (\<lambda>rows.
       bnd (arr_set cols i c) (\<lambda>cols.
       bnd (arr_set secs i sc) (\<lambda>secs.
       ok (rows, cols, secs))))))
     (replicate (nat SUDOKU_SIZE) 0, replicate (nat SUDOKU_SIZE) 0, replicate (nat SUDOKU_SIZE) 0)"

text \<open>The body of the loop over \<open>v\<close> in \<^verbatim>\<open>get_dlx_cells\<close>; its state is \<^verbatim>\<open>cells\<close> and \<^verbatim>\<open>count\<close>.\<close>

definition cell_rows :: "int \<Rightarrow> int \<Rightarrow> int \<Rightarrow> nat \<Rightarrow> bool list \<times> nat \<Rightarrow> (bool list \<times> nat) res" where
  "cell_rows net_mask x y v = (\<lambda>(cells, cnt).
     if net_mask AND push_bit (v + 1) 1 = 0 then
       (let row = DLX_ROW (int v) x y in
        bnd (arr_seti cells (DLX_CELL_IDX row (DLX_COL1 (int v) x y)) True) (\<lambda>cells.
        bnd (arr_seti cells (DLX_CELL_IDX row (DLX_COL2 (int v) x y)) True) (\<lambda>cells.
        bnd (arr_seti cells (DLX_CELL_IDX row (DLX_COL3 (int v) x y)) True) (\<lambda>cells.
        bnd (arr_seti cells (DLX_CELL_IDX row (DLX_COL4 (int v) x y)) True) (\<lambda>cells.
        ok (cells, cnt + 4))))))
     else ok (cells, cnt))"

definition cell_cands ::
  "sudoku \<Rightarrow> int list \<Rightarrow> int list \<Rightarrow> int list \<Rightarrow> nat \<Rightarrow> nat \<Rightarrow> bool list \<times> nat
     \<Rightarrow> (bool list \<times> nat) res" where
  "cell_cands s row_masks col_masks sec_masks x y = (\<lambda>(cells, cnt).
     bnd (arr_geti (grid s) (GRID_IDX (int x) (int y))) (\<lambda>v.
     if v = 0 then
       bnd (arr_get row_masks y) (\<lambda>rm.
       bnd (arr_get col_masks x) (\<lambda>cm.
       bnd (arr_geti sec_masks (SEC_IDX (int x) (int y))) (\<lambda>sm.
       for_loop 0 9 (cell_rows (rm OR cm OR sm) (int x) (int y)) (cells, cnt))))
     else ok (cells, cnt)))"

text \<open>\<^verbatim>\<open>get_dlx_cells\<close> returns the array and, through pointers, \<^verbatim>\<open>count\<close>, \<^verbatim>\<open>ncols\<close>, \<^verbatim>\<open>nrows\<close>.\<close>

definition get_dlx_cells :: "sudoku \<Rightarrow> (bool list \<times> nat \<times> nat \<times> nat) res" where
  "get_dlx_cells s =
     bnd (get_masks s) (\<lambda>(row_masks, col_masks, sec_masks).
     bnd (for_loop 0 (nat SUDOKU_SIZE) (\<lambda>x.
            for_loop 0 (nat SUDOKU_SIZE) (cell_cands s row_masks col_masks sec_masks x))
          (replicate (nat (DLX_MAX_COLS * DLX_MAX_ROWS)) False, 0)) (\<lambda>(cells, cnt).
     ok (cells, cnt, nat DLX_MAX_COLS, nat DLX_MAX_ROWS)))"

subsection \<open>\<^verbatim>\<open>fill_solution\<close> and \<^verbatim>\<open>sudoku_solve\<close>\<close>

definition fill_solution :: "sudoku \<Rightarrow> int list \<Rightarrow> nat \<Rightarrow> sudoku res" where
  "fill_solution s sset n =
     bnd (for_loop 0 n (\<lambda>i gr.
            bnd (arr_get sset i) (\<lambda>r.
            if r \<noteq> - 1 then arr_seti gr (GRID_IDX (DLX_X r) (DLX_Y r)) (to_value (DLX_V r))
            else ok gr)) (grid s)) (\<lambda>gr.
     ok (s\<lparr>grid := gr\<rparr>))"

text \<open>
  The array \<^verbatim>\<open>set\<close> of \<^verbatim>\<open>sudoku_solve\<close> (here \<open>sset\<close>) is not initialised in C; \<^verbatim>\<open>solver_run\<close>
  overwrites all of it before anything reads it.
\<close>

definition sudoku_solve :: "sudoku \<Rightarrow> rng \<Rightarrow> (bool \<times> sudoku \<times> rng) res" where
  "sudoku_solve s g =
     bnd (get_dlx_cells s) (\<lambda>(cells, cnt, nc, nr).
     bnd (solver_init_graph (solver_create cnt nc nr) cells False) (\<lambda>slvr.
     bnd (solver_run slvr DLX_RANDOM (replicate (nat GRID_SIZE) 0) (nat GRID_SIZE) g)
       (\<lambda>(solved, slvr, g).
     if solved then
       bnd (fill_solution s (solution slvr) (nat GRID_SIZE)) (\<lambda>s. ok (True, s, g))
     else ok (False, s, g))))"

subsection \<open>The stages of the generator\<close>

text \<open>
  The loop body of \<^verbatim>\<open>remove_deduced_hints\<close>; the state is the grid and the three
  arrays of masks.
\<close>

definition all_on :: int where
  "all_on = push_bit (nat SUDOKU_SIZE + 1) 1 - 2"

definition deduce_step ::
  "int list \<Rightarrow> nat \<Rightarrow> nat list \<times> int list \<times> int list \<times> int list
     \<Rightarrow> (nat list \<times> int list \<times> int list \<times> int list) res" where
  "deduce_step order i = (\<lambda>(gr, row_masks, col_masks, sec_masks).
     bnd (arr_get order i) (\<lambda>oi.
     let x = GRID_X oi; y = GRID_Y oi; sec = SEC_IDX x y in
     bnd (arr_geti row_masks y) (\<lambda>rm.
     bnd (arr_geti col_masks x) (\<lambda>cm.
     bnd (arr_geti sec_masks sec) (\<lambda>sm.
     if rm OR cm OR sm = all_on then
       bnd (arr_geti gr (GRID_IDX x y)) (\<lambda>v.
       bnd (shl1 v) (\<lambda>sh.
       let remove = NOT sh in
       bnd (arr_seti row_masks y (rm AND remove)) (\<lambda>row_masks.
       bnd (arr_geti col_masks x) (\<lambda>cm.
       bnd (arr_seti col_masks x (cm AND remove)) (\<lambda>col_masks.
       bnd (arr_geti sec_masks sec) (\<lambda>sm.
       bnd (arr_seti sec_masks sec (sm AND remove)) (\<lambda>sec_masks.
       bnd (arr_seti gr (GRID_IDX x y) 0) (\<lambda>gr.
       ok (gr, row_masks, col_masks, sec_masks)))))))))
     else ok (gr, row_masks, col_masks, sec_masks))))))"

definition remove_deduced_hints :: "sudoku \<Rightarrow> int list \<Rightarrow> nat \<Rightarrow> sudoku res" where
  "remove_deduced_hints s order n =
     bnd (for_loop 0 n (deduce_step order)
            (grid s, replicate (nat SUDOKU_SIZE) all_on, replicate (nat SUDOKU_SIZE) all_on,
             replicate (nat SUDOKU_SIZE) all_on))
       (\<lambda>(gr, row_masks, col_masks, sec_masks). ok (s\<lparr>grid := gr\<rparr>))"

text \<open>
  The loop body of \<^verbatim>\<open>remove_non_unique_hints\<close>; the state is the puzzle, the array
  \<^verbatim>\<open>set\<close> (written by \<^verbatim>\<open>solver_run\<close>) and the random generator.
\<close>

definition unique_step :: "int list \<Rightarrow> nat \<Rightarrow> sudoku \<times> int list \<times> rng \<Rightarrow> (sudoku \<times> int list \<times> rng) res" where
  "unique_step order i = (\<lambda>(s, sset, g).
     bnd (arr_get order i) (\<lambda>oi.
     let x = GRID_X oi; y = GRID_Y oi in
     bnd (arr_geti (grid s) (GRID_IDX x y)) (\<lambda>v.
     if v \<noteq> 0 then
       bnd (arr_seti (grid s) (GRID_IDX x y) 0) (\<lambda>gr.
       let s = s\<lparr>grid := gr\<rparr> in
       bnd (get_dlx_cells s) (\<lambda>(cells, cnt, nc, nr).
       bnd (solver_init_graph (solver_create cnt nc nr) cells False) (\<lambda>checker.
       bnd (solver_run checker DLX_UNIQUE sset (nat GRID_SIZE) g) (\<lambda>(unique, checker, g).
       if \<not> unique then
         bnd (arr_seti (grid s) (GRID_IDX x y) v) (\<lambda>gr.
         ok (s\<lparr>grid := gr\<rparr>, solution checker, g))
       else ok (s, solution checker, g)))))
     else ok (s, sset, g))))"

definition remove_non_unique_hints :: "sudoku \<Rightarrow> int list \<Rightarrow> nat \<Rightarrow> rng \<Rightarrow> (sudoku \<times> rng) res" where
  "remove_non_unique_hints s order n g =
     bnd (for_loop 0 n (unique_step order) (s, replicate (nat GRID_SIZE) 0, g)) (\<lambda>(s, sset, g).
     ok (s, g))"

text \<open>The first loop of \<^verbatim>\<open>add_extra_hints\<close>; the state is \<^verbatim>\<open>hints\<close> and \<^verbatim>\<open>num_choices\<close>.\<close>

definition choice_step :: "sudoku \<Rightarrow> nat \<Rightarrow> int list \<times> nat \<Rightarrow> (int list \<times> nat) res" where
  "choice_step s i = (\<lambda>(hints, num_choices).
     bnd (arr_get (grid s) i) (\<lambda>v.
     if v = 0 then
       bnd (arr_set hints num_choices (int i)) (\<lambda>hints. ok (hints, Suc num_choices))
     else ok (hints, num_choices)))"

definition copy_hint :: "sudoku \<Rightarrow> int list \<Rightarrow> nat \<Rightarrow> nat list \<Rightarrow> nat list res" where
  "copy_hint soln hints i gr =
     bnd (arr_get hints i) (\<lambda>h.
     bnd (arr_geti (grid soln) h) (\<lambda>v.
     arr_seti gr h v))"

definition add_extra_hints :: "sudoku \<Rightarrow> sudoku \<Rightarrow> int \<Rightarrow> rng \<Rightarrow> (sudoku \<times> rng) res" where
  "add_extra_hints s soln num g =
     (if num \<le> 0 then ok (s, g)
      else
        bnd (for_loop 0 (nat GRID_SIZE) (choice_step s) (replicate (nat GRID_SIZE) 0, 0))
          (\<lambda>(hints, num_choices).
        bnd (shuffle hints num_choices g) (\<lambda>(hints, g).
        let num = (if nat num > num_choices then num_choices else nat num) in
        bnd (for_loop 0 num (copy_hint soln hints) (grid s)) (\<lambda>gr.
        ok (s\<lparr>grid := gr\<rparr>, g)))))"

subsection \<open>\<^verbatim>\<open>sudoku_generate\<close>\<close>

text \<open>
  \<^verbatim>\<open>sudoku_generate\<close> returns \<^verbatim>\<open>void\<close>.  What a call leaves behind is the puzzle, the
  solution, the lines that \<^verbatim>\<open>warn\<close> wrote to the standard error stream, and the state
  of the random generator.  \<open>generate_stages\<close> is the body after the test of
  \<^verbatim>\<open>sudoku_solve\<close>, and \<open>generate_after_solve\<close> the body from that test on.
\<close>

definition generate_stages ::
  "sudoku \<Rightarrow> int \<Rightarrow> rng \<Rightarrow> (sudoku \<times> sudoku \<times> string list \<times> rng) res" where
  "generate_stages s extra_hints g =
     (let soln = s in
      bnd (init_shuffled_array (nat GRID_SIZE) 0 g) (\<lambda>(hints, g).
      bnd (remove_deduced_hints s hints (nat GRID_SIZE)) (\<lambda>s.
      bnd (remove_non_unique_hints s hints (nat GRID_SIZE) g) (\<lambda>(s, g).
      bnd (add_extra_hints s soln extra_hints g) (\<lambda>(s, g).
      ok (s, soln, [], g))))))"

definition generate_after_solve ::
  "bool \<Rightarrow> sudoku \<Rightarrow> sudoku \<Rightarrow> int \<Rightarrow> rng \<Rightarrow> (sudoku \<times> sudoku \<times> string list \<times> rng) res" where
  "generate_after_solve solved s soln extra_hints g =
     (if \<not> solved then ok (s, soln, [''could not generate sudoku puzzle''], g)
      else generate_stages s extra_hints g)"

definition sudoku_generate ::
  "sudoku \<Rightarrow> sudoku \<Rightarrow> int \<Rightarrow> rng \<Rightarrow> (sudoku \<times> sudoku \<times> string list \<times> rng) res" where
  "sudoku_generate s soln extra_hints g =
     bnd (seed s g) (\<lambda>(s, g).
     bnd (sudoku_solve s g) (\<lambda>(solved, s, g).
     generate_after_solve solved s soln extra_hints g))"

section \<open>Properties\<close>

lemma sdiv_nonneg: "0 \<le> a \<Longrightarrow> 0 < b \<Longrightarrow> (a::int) sdiv b = a div b"
  by (simp add: signed_divide_int_def sgn_if)

lemma smod_nonneg: "0 \<le> a \<Longrightarrow> 0 < b \<Longrightarrow> (a::int) smod b = a mod b"
  by (simp add: signed_modulo_int_def sgn_if)

text \<open>
  Claim C5.  For a column \<open>x\<close> and a line \<open>y\<close> in \<open>0..8\<close> and a value \<open>v\<close> in
  \<open>1..9\<close>, the DLX row index \<open>81 * y + 9 * x + (v - 1)\<close>, which is
  \<^verbatim>\<open>DLX_ROW(v-1, x, y)\<close> (the encoder passes the value minus one), is decoded by
  \<^verbatim>\<open>DLX_X\<close>, \<^verbatim>\<open>DLX_Y\<close> and \<^verbatim>\<open>DLX_V\<close> to exactly \<open>x\<close>, \<open>y\<close> and \<open>v\<close>.
\<close>

theorem dlx_decode_encode:
  assumes "0 \<le> x" "x < 9" "0 \<le> y" "y < 9" "1 \<le> v" "v \<le> 9"
  shows "DLX_ROW (v - 1) x y = 81 * y + 9 * x + (v - 1)
       \<and> DLX_X (DLX_ROW (v - 1) x y) = x
       \<and> DLX_Y (DLX_ROW (v - 1) x y) = y
       \<and> DLX_V (DLX_ROW (v - 1) x y) = v"
proof -
  let ?r = "81 * y + 9 * x + (v - 1)"
  have r: "DLX_ROW (v - 1) x y = ?r"
    by (simp add: DLX_ROW_def GRID_SIZE_def SUDOKU_SIZE_def)
  have r0: "0 \<le> ?r" using assms by simp
  have d9: "?r div 9 = 9 * y + x" using assms by simp
  have "?r = (v - 1) + 9 * (9 * y + x)" by simp
  then have "?r mod 9 = (v - 1) mod 9" by (metis mod_mult_self2)
  then have m9: "?r mod 9 = v - 1" using assms by simp
  have q0: "0 \<le> 9 * y + x" using assms by simp
  have X: "DLX_X ?r = x"
    using assms by (simp add: DLX_X_def sdiv_nonneg [OF r0] d9 smod_nonneg [OF q0])
  have Y: "DLX_Y ?r = y"
    using assms by (simp add: DLX_Y_def sdiv_nonneg [OF r0] d9 sdiv_nonneg [OF q0])
  have V: "DLX_V ?r = v"
    by (simp add: DLX_V_def smod_nonneg [OF r0] m9)
  show ?thesis using r X Y V by simp
qed

theorem dlx_decode_encode_witness:
  "DLX_ROW (5 - 1) 3 7 = 81 * 7 + 9 * 3 + (5 - 1)
   \<and> DLX_X (DLX_ROW (5 - 1) 3 7) = 3
   \<and> DLX_Y (DLX_ROW (5 - 1) 3 7) = 7
   \<and> DLX_V (DLX_ROW (5 - 1) 3 7) = 5"
  by (rule dlx_decode_encode [of 3 7 5]) simp_all


section \<open>The solver on small matrices\<close>

text \<open>Rules that evaluate the solver on a concrete matrix.\<close>

lemma replicate_numeral: "replicate (numeral k) x = x # replicate (pred_numeral k) x"
  by (simp add: numeral_eq_Suc)

lemmas solver_eval = usub_def uinc_def udec_def rand_def null_node_def deref_def assign_def
  arr_get_def arr_set_def solver_create_def link_headers_def node_ptr_def link_root_def
  add_cell_def
  build_column_def link_cell_def build_row_def drop_empty_def solver_init_graph_def
  cover_node_def cover_row_def cover_def uncover_node_def uncover_row_def uncover_def
  choose_step_def choose_column_def collect_step_def collect_rows_def cover_other_def
  cover_others_def uncover_other_def uncover_others_def solver_run_def
  for_loop.simps while_loop.simps search.simps Let_def replicate_numeral

text \<open>
  A matrix of five rows over four columns: row 0 is \<open>{0}\<close>, row 1 is \<open>{1, 2}\<close>, row 2
  is \<open>{2, 3}\<close>, row 3 is \<open>{1, 3}\<close> and row 4 is \<open>{0, 1, 2, 3}\<close>.  Its only exact cover
  is row 4 alone.
\<close>

definition stale_cells :: "bool list" where
  "stale_cells =
     [True, False, False, False,
      False, True, True, False,
      False, False, True, True,
      False, True, False, True,
      True, True, True, True]"

text \<open>
  \<open>run_matrix\<close> builds the graph of a matrix and runs the solver on a buffer of \<open>sz\<close>
  slots; it returns the result, the buffer and the solution counter.
\<close>

definition run_matrix ::
  "nat \<Rightarrow> nat \<Rightarrow> nat \<Rightarrow> bool list \<Rightarrow> bool \<Rightarrow> dlx_mode \<Rightarrow> nat \<Rightarrow> rng \<Rightarrow> (bool \<times> int list \<times> nat) res" where
  "run_matrix inuse nc nr cells strict m sz g =
     bnd (solver_init_graph (solver_create inuse nc nr) cells strict) (\<lambda>s.
     bnd (solver_run s m (replicate sz 0) sz g) (\<lambda>(b, s, g).
     ok (b, solution s, solution_count s)))"

text \<open>
  Claim C7 (the code does not do what the claim says).  For a matrix with no column,
  \<^verbatim>\<open>solver_init_graph\<close> does not build an empty header ring: \<^verbatim>\<open>s->ncols-1\<close> wraps
  around to \<open>2 ^ 64 - 1\<close>, so the first loop writes \<^verbatim>\<open>nodes[1]\<close>, outside the arena of
  one node, in strict and in relaxed mode; the solver is never run.
\<close>

theorem solver_init_graph_no_columns:
  "solver_init_graph (solver_create 0 0 0) [] False = fail Mem_Fault
   \<and> solver_init_graph (solver_create 0 0 0) [] True = fail Mem_Fault
   \<and> run_matrix 0 0 0 [] False DLX_RANDOM 0 (\<lambda>i. 0) = fail Mem_Fault"
  by (simp add: solver_eval run_matrix_def)

text \<open>
  Claim C8 (the code does not do what the claim says).  On \<open>stale_cells\<close> the search
  first tries row 0 at depth 0 and the rows 1 and 3 at depth 1, which both fail, and
  then finds the cover that is row 4 alone.  The slot 1 of the buffer keeps the row 3
  of the failed branch: \<^verbatim>\<open>search\<close> never resets a slot to \<open>-1\<close>.  This happens in both
  modes (in \<^verbatim>\<open>DLX_RANDOM\<close> mode with a generator that returns 1 at every call, which
  leaves the order of the rows as it is).
\<close>

theorem solver_run_stale_slot:
  "run_matrix 11 4 5 stale_cells False DLX_UNIQUE 4 (\<lambda>i. 1) = ok (True, [4, 3, - 1, - 1], 1)
   \<and> run_matrix 11 4 5 stale_cells False DLX_RANDOM 4 (\<lambda>i. 1) = ok (True, [4, 3, - 1, - 1], 1)"
  by (simp add: solver_eval run_matrix_def stale_cells_def)


section \<open>Reasoning about loops and arrays\<close>

lemma bnd_ok_iff: "bnd m f = ok y \<longleftrightarrow> (\<exists>x. m = ok x \<and> f x = ok y)"
  by (auto simp: bnd_def ok_def split: option.splits sum.splits)

lemma for_loop_done [simp]: "n \<le> i \<Longrightarrow> for_loop i n b x = ok x"
  by (simp add: for_loop.simps)

lemma for_loop_step: "i < n \<Longrightarrow> for_loop i n b x = bnd (b i x) (for_loop (Suc i) n b)"
  by (subst for_loop.simps) simp

text \<open>Total correctness of a \<open>for\<close> loop with an invariant.\<close>

lemma for_loop_total:
  assumes "I i x" and "i \<le> n"
    and "\<And>j y. i \<le> j \<Longrightarrow> j < n \<Longrightarrow> I j y \<Longrightarrow> \<exists>y'. b j y = ok y' \<and> I (Suc j) y'"
  shows "\<exists>y. for_loop i n b x = ok y \<and> I n y"
  using assms
proof (induction "n - i" arbitrary: i x)
  case 0
  then show ?case by simp
next
  case (Suc d)
  then have lt: "i < n" by simp
  from Suc.prems(3) [OF order_refl lt Suc.prems(1)]
  obtain y' where y': "b i x = ok y'" "I (Suc i) y'" by blast
  have "\<exists>y. for_loop (Suc i) n b y' = ok y \<and> I n y"
  proof (rule Suc.hyps(1))
    show "d = n - Suc i" using Suc.hyps(2) by simp
    show "I (Suc i) y'" by fact
    show "Suc i \<le> n" using lt by simp
    show "\<And>j y. Suc i \<le> j \<Longrightarrow> j < n \<Longrightarrow> I j y \<Longrightarrow> \<exists>y'. b j y = ok y' \<and> I (Suc j) y'"
      using Suc.prems(3) by simp
  qed
  then show ?case by (simp add: for_loop_step [OF lt] y')
qed

text \<open>Partial correctness: an invariant of the runs that return.\<close>

lemma for_loop_partial:
  assumes "for_loop i n b x = ok y" and "I i x" and "i \<le> n"
    and "\<And>j z z'. i \<le> j \<Longrightarrow> j < n \<Longrightarrow> I j z \<Longrightarrow> b j z = ok z' \<Longrightarrow> I (Suc j) z'"
  shows "I n y"
  using assms
proof (induction "n - i" arbitrary: i x)
  case 0
  then show ?case by simp
next
  case (Suc d)
  then have lt: "i < n" by simp
  from Suc.prems(1) obtain x' where x': "b i x = ok x'" "for_loop (Suc i) n b x' = ok y"
    by (auto simp: for_loop_step [OF lt] bnd_ok_iff)
  show ?case
  proof (rule Suc.hyps(1) [OF _ x'(2)])
    show "d = n - Suc i" using Suc.hyps(2) by simp
    show "I (Suc i) x'" using Suc.prems(4) [OF order_refl lt Suc.prems(2) x'(1)] .
    show "Suc i \<le> n" using lt by simp
    show "\<And>j z z'. Suc i \<le> j \<Longrightarrow> j < n \<Longrightarrow> I j z \<Longrightarrow> b j z = ok z' \<Longrightarrow> I (Suc j) z'"
      using Suc.prems(4) by simp
  qed
qed

lemma arr_get_ok [simp]: "i < length a \<Longrightarrow> arr_get a i = ok (a ! i)"
  by (simp add: arr_get_def)

lemma arr_set_ok [simp]: "i < length a \<Longrightarrow> arr_set a i v = ok (a[i := v])"
  by (simp add: arr_set_def)

lemma arr_geti_ok [simp]: "0 \<le> i \<Longrightarrow> nat i < length a \<Longrightarrow> arr_geti a i = ok (a ! nat i)"
  by (simp add: arr_geti_def)

lemma arr_seti_ok [simp]: "0 \<le> i \<Longrightarrow> nat i < length a \<Longrightarrow> arr_seti a i v = ok (a[nat i := v])"
  by (simp add: arr_seti_def)

lemma arr_get_ok_iff: "arr_get a i = ok v \<longleftrightarrow> i < length a \<and> v = a ! i"
  by (auto simp: arr_get_def)

lemma arr_set_ok_iff: "arr_set a i v = ok a' \<longleftrightarrow> i < length a \<and> a' = a[i := v]"
  by (auto simp: arr_set_def)

lemma arr_geti_ok_iff: "arr_geti a i = ok v \<longleftrightarrow> 0 \<le> i \<and> nat i < length a \<and> v = a ! nat i"
  by (auto simp: arr_geti_def)

lemma arr_seti_ok_iff: "arr_seti a i v = ok a' \<longleftrightarrow> 0 \<le> i \<and> nat i < length a \<and> a' = a[nat i := v]"
  by (auto simp: arr_seti_def)

text \<open>The shuffle permutes the elements up to the start index and keeps the others.\<close>

lemma shuffle_from_total:
  assumes "i < length a \<or> i = 0"
  shows "\<exists>a' g'. shuffle_from i a g = ok (a', g') \<and> length a' = length a
           \<and> drop (Suc i) a' = drop (Suc i) a
           \<and> set (take (Suc i) a') = set (take (Suc i) a)
           \<and> (distinct (take (Suc i) a') \<longleftrightarrow> distinct (take (Suc i) a))"
  using assms
proof (induction i arbitrary: a g)
  case 0
  then show ?case by simp
next
  case (Suc i)
  then have len: "Suc i < length a" by simp
  obtain r g1 where rg: "rand g = (r, g1)" by (cases "rand g")
  define j where "j = r mod (Suc i + 1)"
  have "j < Suc (Suc i)" by (simp add: j_def)
  then have j: "j \<le> Suc i" "j < length a"
    using len by simp_all
  define a1 where "a1 = a[Suc i := a ! j, j := a ! Suc i]"
  have la1: "length a1 = length a" by (simp add: a1_def)
  let ?n = "Suc (Suc i)"
  have ta1: "take ?n a1 = (take ?n a)[Suc i := take ?n a ! j, j := take ?n a ! Suc i]"
    using j by (simp add: a1_def take_update_swap)
  have s1: "set (take ?n a1) = set (take ?n a)"
    unfolding ta1 using j len by (intro set_swap) simp_all
  have d1: "distinct (take ?n a1) \<longleftrightarrow> distinct (take ?n a)"
    unfolding ta1 using j len by (intro distinct_swap) simp_all
  have dr1: "drop ?n a1 = drop ?n a"
    using j by (simp add: a1_def drop_update_cancel)
  from Suc.IH [of a1 g1] len la1
  obtain a' g' where r: "shuffle_from i a1 g1 = ok (a', g')" "length a' = length a1"
    "drop (Suc i) a' = drop (Suc i) a1" "set (take (Suc i) a') = set (take (Suc i) a1)"
    "distinct (take (Suc i) a') \<longleftrightarrow> distinct (take (Suc i) a1)" by auto
  have nth: "a' ! Suc i = a1 ! Suc i"
    using r(3) len la1 r(2) by (metis Cons_nth_drop_Suc nth_via_drop)
  have dr: "drop ?n a' = drop ?n a1"
    using r(3) by (metis drop_Suc tl_drop)
  have tk: "take ?n a' = take (Suc i) a' @ [a1 ! Suc i]" "take ?n a1 = take (Suc i) a1 @ [a1 ! Suc i]"
    using len la1 r(2) nth by (simp_all add: take_Suc_conv_app_nth)
  have j': "r mod Suc (Suc i) = j" by (simp add: j_def)
  have run: "shuffle_from (Suc i) a g = ok (a', g')"
    using len j r(1) by (simp add: rg Let_def j' a1_def)
  have "set (take ?n a') = set (take ?n a1)" "distinct (take ?n a') \<longleftrightarrow> distinct (take ?n a1)"
    unfolding tk using r(4,5) by simp_all
  then show ?case
    using run r(2) la1 dr dr1 s1 d1 by simp
qed


section \<open>The generator stages\<close>

text \<open>A solved grid and a puzzle that leaves out three of its cells.\<close>

definition solved_example :: sudoku where
  "solved_example = \<lparr>grid =
     [1, 2, 3, 4, 5, 6, 7, 8, 9,
      4, 5, 6, 7, 8, 9, 1, 2, 3,
      7, 8, 9, 1, 2, 3, 4, 5, 6,
      2, 3, 4, 5, 6, 7, 8, 9, 1,
      5, 6, 7, 8, 9, 1, 2, 3, 4,
      8, 9, 1, 2, 3, 4, 5, 6, 7,
      3, 4, 5, 6, 7, 8, 9, 1, 2,
      6, 7, 8, 9, 1, 2, 3, 4, 5,
      9, 1, 2, 3, 4, 5, 6, 7, 8]\<rparr>"

definition puzzle_example :: sudoku where
  "puzzle_example = \<lparr>grid =
     [0, 2, 3, 4, 5, 6, 7, 8, 9,
      4, 5, 6, 7, 8, 9, 1, 2, 3,
      7, 8, 9, 1, 2, 3, 4, 5, 6,
      2, 3, 4, 5, 6, 7, 8, 9, 1,
      5, 6, 7, 8, 0, 1, 2, 3, 4,
      8, 9, 1, 2, 3, 4, 5, 6, 7,
      3, 4, 5, 6, 7, 8, 9, 1, 2,
      6, 7, 8, 9, 1, 2, 3, 4, 5,
      9, 1, 2, 3, 4, 5, 6, 7, 0]\<rparr>"


text \<open>The positions of the filled cells of a grid.\<close>

definition filled :: "sudoku \<Rightarrow> nat set" where
  "filled s = {i. i < length (grid s) \<and> grid s ! i \<noteq> 0}"

lemma GRID_SIZE_81 [simp]: "nat GRID_SIZE = 81" "GRID_SIZE = 81"
  by (simp_all add: GRID_SIZE_def SUDOKU_SIZE_def)

lemma SUDOKU_SIZE_9 [simp]: "nat SUDOKU_SIZE = 9" "SUDOKU_SIZE = 9"
  by (simp_all add: SUDOKU_SIZE_def)

lemma choice_loop:
  assumes len: "length (grid s) = 81"
  shows "\<exists>hints k. for_loop 0 81 (choice_step s) (replicate 81 0, 0) = ok (hints, k)
           \<and> length hints = 81 \<and> k \<le> 81
           \<and> take k hints = map int (filter (\<lambda>i. grid s ! i = 0) [0..<81])"
proof -
  define I where "I j hk \<longleftrightarrow> (case hk of (h, k) \<Rightarrow> length h = 81 \<and> k \<le> j
      \<and> take k h = map int (filter (\<lambda>i. grid s ! i = 0) [0..<j]))" for j :: nat and hk :: "int list \<times> nat"
  have "\<exists>y. for_loop 0 81 (choice_step s) (replicate 81 0, 0) = ok y \<and> I 81 y"
  proof (rule for_loop_total)
    show "I 0 (replicate 81 0, 0)" by (simp add: I_def)
    show "(0::nat) \<le> 81" by simp
    fix j y assume j: "0 \<le> j" "j < 81" and Iy: "I j y"
    obtain h k where y: "y = (h, k)" by (cases y)
    from Iy have h: "length h = 81" "k \<le> j"
      "take k h = map int (filter (\<lambda>i. grid s ! i = 0) [0..<j])"
      by (simp_all add: I_def y)
    show "\<exists>y'. choice_step s j y = ok y' \<and> I (Suc j) y'"
    proof (cases "grid s ! j = 0")
      case True
      have "take (Suc k) (h[k := int j]) = take k h @ [int j]"
        using h j by (simp add: take_Suc_conv_app_nth)
      then show ?thesis
        using True h j len by (simp add: choice_step_def y I_def)
    next
      case False
      then show ?thesis
        using h j len by (simp add: choice_step_def y I_def)
    qed
  qed
  then show ?thesis by (auto simp: I_def)
qed

lemma copy_loop:
  assumes len: "length gr0 = 81" "length (grid soln) = 81"
    and hs: "\<forall>h \<in> set (take num hints). 0 \<le> h \<and> nat h < 81" and num: "num \<le> length hints"
  shows "\<exists>gr. for_loop 0 num (copy_hint soln hints) gr0 = ok gr \<and> length gr = 81
           \<and> (\<forall>i<81. gr ! i = (if int i \<in> set (take num hints) then grid soln ! i else gr0 ! i))"
proof -
  define I where "I j gr \<longleftrightarrow> length gr = 81
      \<and> (\<forall>i<81. gr ! i = (if int i \<in> set (take j hints) then grid soln ! i else gr0 ! i))"
    for j :: nat and gr :: "nat list"
  have "\<exists>y. for_loop 0 num (copy_hint soln hints) gr0 = ok y \<and> I num y"
  proof (rule for_loop_total)
    show "I 0 gr0" by (simp add: I_def len)
    show "0 \<le> num" by simp
    fix j gr assume j: "0 \<le> j" "j < num" and Iy: "I j gr"
    have hj: "hints ! j \<in> set (take num hints)"
      using j num by (metis in_set_conv_nth length_take min.absorb2 nth_take)
    then have b: "0 \<le> hints ! j" "nat (hints ! j) < 81" using hs by auto
    have tk: "take (Suc j) hints = take j hints @ [hints ! j]"
      using j num by (simp add: take_Suc_conv_app_nth)
    have "I (Suc j) (gr[nat (hints ! j) := grid soln ! nat (hints ! j)])"
      using Iy b unfolding I_def tk
      by (auto simp: nth_list_update)
    then show "\<exists>y'. copy_hint soln hints j gr = ok y' \<and> I (Suc j) y'"
      using j num b Iy len by (simp add: copy_hint_def I_def)
  qed
  then show ?thesis by (auto simp: I_def)
qed


lemma add_extra_hints_total:
  assumes len: "length (grid s) = 81" "length (grid soln) = 81"
    and complete: "0 \<notin> set (grid soln)"
    and n: "0 \<le> n"
  shows "\<exists>s' g'. add_extra_hints s soln n g = ok (s', g')
           \<and> length (grid s') = 81
           \<and> filled s \<subseteq> filled s'
           \<and> card (filled s' - filled s) = min (nat n) (card {i. i < 81 \<and> grid s ! i = 0})
           \<and> (\<forall>i \<in> filled s' - filled s. grid s' ! i = grid soln ! i)
           \<and> (\<forall>i<81. i \<notin> filled s' - filled s \<longrightarrow> grid s' ! i = grid s ! i)"
proof (cases "n \<le> 0")
  case True
  then have "add_extra_hints s soln n g = ok (s, g)" "nat n = 0"
    by (simp_all add: add_extra_hints_def)
  then show ?thesis using len by simp
next
  case False
  define E where "E = filter (\<lambda>i. grid s ! i = 0) [0..<81]"
  have setE: "set E = {i. i < 81 \<and> grid s ! i = 0}" by (auto simp: E_def)
  have dE: "distinct E" by (simp add: E_def)
  from choice_loop [OF len(1)] obtain hints k where
    ch: "for_loop 0 81 (choice_step s) (replicate 81 0, 0) = ok (hints, k)"
    "length hints = 81" "k \<le> 81" "take k hints = map int E"
    unfolding E_def by blast
  have k: "k = length E"
    using ch(2,3,4) by (metis length_map length_take min.absorb2)
  have "k - 1 < length hints \<or> k - 1 = 0" using ch(2,3) by linarith
  from shuffle_from_total [OF this, of g] obtain hints' g' where
    sh: "shuffle hints k g = ok (hints', g')" "length hints' = length hints"
    "set (take (Suc (k - 1)) hints') = set (take (Suc (k - 1)) hints)"
    "distinct (take (Suc (k - 1)) hints') \<longleftrightarrow> distinct (take (Suc (k - 1)) hints)"
    unfolding shuffle_def by blast
  define num where "num = (if nat n > k then k else nat n)"
  have num: "num = min (nat n) k" "num \<le> k" by (simp_all add: num_def)
  define T where "T = take num hints'"
  have lT: "length T = num" using num ch(2,3) sh(2) by (simp add: T_def)
  have T: "set T \<subseteq> int ` set E \<and> distinct T"
  proof (cases "k = 0")
    case True
    then show ?thesis using num by (simp add: T_def)
  next
    case False
    then have S: "Suc (k - 1) = k" by simp
    have sk: "set (take k hints') = int ` set E"
      using sh(3) ch(4) unfolding S by simp
    have dk: "distinct (take k hints')"
      using sh(4) ch(4) dE unfolding S by (simp add: distinct_map)
    have "T = take num (take k hints')" using num by (simp add: T_def min.absorb1)
    then show ?thesis
      using sk dk by (metis set_take_subset distinct_take)
  qed
  then have T: "set T \<subseteq> int ` set E" "distinct T" "length T = num" using lT by simp_all
  have hs: "\<forall>h \<in> set (take num hints'). 0 \<le> h \<and> nat h < 81"
    using T(1) setE unfolding T_def by auto
  from copy_loop [OF len hs] num ch(2,3) sh(2)
  obtain gr where gr: "for_loop 0 num (copy_hint soln hints') (grid s) = ok gr" "length gr = 81"
    "\<forall>i<81. gr ! i = (if int i \<in> set T then grid soln ! i else grid s ! i)"
    unfolding T_def by auto
  define s' where "s' = s\<lparr>grid := gr\<rparr>"
  have run: "add_extra_hints s soln n g = ok (s', g')"
    using False ch(1) sh(1) gr(1) by (simp add: add_extra_hints_def Let_def num_def s'_def)
  have sol0: "\<And>i. i < 81 \<Longrightarrow> grid soln ! i \<noteq> 0"
    using complete len(2) by (metis nth_mem)
  have F: "filled s' - filled s = {i. int i \<in> set T}"
  proof -
    have "\<And>i. int i \<in> set T \<Longrightarrow> i < 81 \<and> grid s ! i = 0"
      using T(1) setE by auto
    then show ?thesis
      using gr(2,3) len sol0 by (auto simp: filled_def s'_def)
  qed
  have "{i. int i \<in> set T} = nat ` set T"
    using T(1) by (auto simp: image_iff) (metis nat_int)
  moreover have "inj_on nat (set T)"
  proof (rule inj_onI)
    fix x y assume "x \<in> set T" "y \<in> set T" "nat x = nat y"
    moreover from this T(1) have "0 \<le> x" "0 \<le> y" by auto
    ultimately show "x = y" by simp
  qed
  ultimately have "card (filled s' - filled s) = num"
    using T(2,3) by (simp add: F card_image distinct_card)
  moreover have "card {i. i < 81 \<and> grid s ! i = 0} = k"
    using dE setE k by (metis distinct_card)
  moreover have "filled s \<subseteq> filled s'"
    using gr(2,3) len sol0 by (auto simp: filled_def s'_def)
  moreover have "\<forall>i \<in> filled s' - filled s. grid s' ! i = grid soln ! i"
    unfolding F using gr(3) T(1) setE by (auto simp: s'_def)
  moreover have "\<forall>i<81. i \<notin> filled s' - filled s \<longrightarrow> grid s' ! i = grid s ! i"
    unfolding F using gr(3) by (auto simp: s'_def)
  ultimately show ?thesis
    using run gr(2) num by (auto simp: s'_def)
qed


text \<open>
  Claim C9.  When the snapshot \<open>soln\<close> is a complete grid, \<^verbatim>\<open>add_extra_hints\<close> with a
  count \<open>n \<ge> 0\<close> returns, and it fills exactly \<open>min n e\<close> cells, where \<open>e\<close> is the number
  of empty cells of the puzzle: the cells that are filled afterwards and were not
  before are that many, each holds the value of the snapshot, and every other cell is
  unchanged; so the filled cells afterwards include the cells filled before.
\<close>

theorem add_extra_hints_fills:
  assumes "length (grid s) = 81" "length (grid soln) = 81"
    and "0 \<notin> set (grid soln)"
    and "0 \<le> n"
  shows "\<exists>s' g'. add_extra_hints s soln n g = ok (s', g')
           \<and> length (grid s') = 81
           \<and> filled s \<subseteq> filled s'
           \<and> card (filled s' - filled s) = min (nat n) (card {i. i < 81 \<and> grid s ! i = 0})
           \<and> (\<forall>i \<in> filled s' - filled s. grid s' ! i = grid soln ! i)
           \<and> (\<forall>i<81. i \<notin> filled s' - filled s \<longrightarrow> grid s' ! i = grid s ! i)"
  using assms by (rule add_extra_hints_total)

text \<open>The puzzle agrees with the snapshot wherever it is filled.\<close>

definition agrees :: "sudoku \<Rightarrow> sudoku \<Rightarrow> bool" where
  "agrees s soln \<longleftrightarrow> list_all2 (\<lambda>a b. a \<noteq> 0 \<longrightarrow> a = b) (grid s) (grid soln)"

lemma agrees_nth:
  "agrees s soln \<longleftrightarrow> length (grid s) = length (grid soln)
     \<and> (\<forall>i < length (grid s). grid s ! i \<noteq> 0 \<longrightarrow> grid s ! i = grid soln ! i)"
  by (simp add: agrees_def list_all2_conv_all_nth)

definition agrees_grid :: "nat list \<Rightarrow> sudoku \<Rightarrow> bool" where
  "agrees_grid gr soln \<longleftrightarrow> agrees \<lparr>grid = gr\<rparr> soln"

lemma agrees_grid_iff: "agrees s soln \<longleftrightarrow> agrees_grid (grid s) soln"
  by (simp add: agrees_def agrees_grid_def)

lemma agrees_grid_clear: "agrees_grid gr soln \<Longrightarrow> agrees_grid (gr[i := 0]) soln"
  by (cases "i < length gr") (auto simp: agrees_grid_def agrees_nth nth_list_update)

lemma agrees_grid_copy: "agrees_grid gr soln \<Longrightarrow> agrees_grid (gr[i := grid soln ! i]) soln"
  by (cases "i < length gr") (auto simp: agrees_grid_def agrees_nth nth_list_update)

lemma deduce_step_agrees:
  assumes "deduce_step order i (gr, rm, cm, sm) = ok (gr', rm', cm', sm')" "agrees_grid gr soln"
  shows "agrees_grid gr' soln"
  using assms
  by (auto simp: deduce_step_def Let_def bnd_ok_iff arr_seti_ok_iff agrees_grid_clear
      split: if_splits)

lemma remove_deduced_hints_agrees:
  assumes "remove_deduced_hints s order n = ok s'" "agrees s soln"
  shows "agrees s' soln"
proof -
  define I where "I j st \<longleftrightarrow> (case st of (gr, rm, cm, sm) \<Rightarrow> agrees_grid gr soln)"
    for j :: nat and st :: "nat list \<times> int list \<times> int list \<times> int list"
  from assms(1) obtain st where
    st: "for_loop 0 n (deduce_step order) (grid s, replicate (nat SUDOKU_SIZE) all_on,
           replicate (nat SUDOKU_SIZE) all_on, replicate (nat SUDOKU_SIZE) all_on) = ok st"
    and s': "s' = s\<lparr>grid := fst st\<rparr>"
    by (auto simp: remove_deduced_hints_def bnd_ok_iff split: prod.splits)
  have "I n st"
  proof (rule for_loop_partial [OF st])
    show "I 0 (grid s, replicate (nat SUDOKU_SIZE) all_on, replicate (nat SUDOKU_SIZE) all_on,
            replicate (nat SUDOKU_SIZE) all_on)"
      using assms(2) by (simp add: I_def agrees_grid_iff)
    show "0 \<le> n" by simp
    fix j z z' assume "I j z" "deduce_step order j z = ok z'"
    then show "I (Suc j) z'"
      by (cases z; cases z') (auto simp: I_def dest: deduce_step_agrees)
  qed
  then show ?thesis by (cases st) (simp add: I_def s' agrees_grid_iff)
qed

lemma unique_step_agrees:
  assumes "unique_step order i (s, sset, g) = ok (s', sset', g')" "agrees s soln"
  shows "agrees s' soln"
proof -
  have restore: "\<And>k gr. k < length gr \<Longrightarrow> gr[k := 0, k := gr ! k] = gr"
    by (simp add: list_update_same_conv)
  from assms show ?thesis
    by (auto simp: unique_step_def Let_def bnd_ok_iff arr_seti_ok_iff arr_geti_ok_iff
        agrees_grid_iff agrees_grid_clear restore
        split: if_splits prod.splits)
qed

lemma remove_non_unique_hints_agrees:
  assumes "remove_non_unique_hints s order n g = ok (s', g')" "agrees s soln"
  shows "agrees s' soln"
proof -
  define I where "I j st \<longleftrightarrow> (case st of (p, sset, r) \<Rightarrow> agrees p soln)"
    for j :: nat and st :: "sudoku \<times> int list \<times> rng"
  from assms(1) obtain st where
    st: "for_loop 0 n (unique_step order) (s, replicate (nat GRID_SIZE) 0, g) = ok st"
    and s': "s' = fst st"
    by (auto simp: remove_non_unique_hints_def bnd_ok_iff split: prod.splits)
  have "I n st"
  proof (rule for_loop_partial [OF st])
    show "I 0 (s, replicate (nat GRID_SIZE) 0, g)" using assms(2) by (simp add: I_def)
    show "0 \<le> n" by simp
    fix j z z' assume "I j z" "unique_step order j z = ok z'"
    then show "I (Suc j) z'"
      by (cases z; cases z') (auto simp: I_def dest: unique_step_agrees)
  qed
  then show ?thesis by (cases st) (simp add: I_def s')
qed

lemma add_extra_hints_agrees:
  assumes "add_extra_hints s soln k g = ok (s', g')" "agrees s soln"
  shows "agrees s' soln"
proof (cases "k \<le> 0")
  case True
  then show ?thesis using assms by (simp add: add_extra_hints_def)
next
  case False
  from assms(1) False obtain hints num gr where
    lp: "for_loop 0 num (copy_hint soln hints) (grid s) = ok gr" and s': "s' = s\<lparr>grid := gr\<rparr>"
    by (auto simp: add_extra_hints_def Let_def bnd_ok_iff split: prod.splits)
  have "agrees_grid gr soln"
  proof (rule for_loop_partial [OF lp, where I = "\<lambda>j gr. agrees_grid gr soln"])
    show "agrees_grid (grid s) soln" using assms(2) by (simp add: agrees_grid_iff)
    show "0 \<le> num" by simp
    fix j z z' assume "agrees_grid z soln" "copy_hint soln hints j z = ok z'"
    then show "agrees_grid z' soln"
      by (auto simp: copy_hint_def bnd_ok_iff arr_seti_ok_iff arr_geti_ok_iff agrees_grid_copy)
  qed
  then show ?thesis by (simp add: s' agrees_grid_iff)
qed

text \<open>
  Claim C10.  \<open>agrees s soln\<close> says that every nonzero cell of the puzzle \<open>s\<close> equals
  the cell of the snapshot \<open>soln\<close> at the same position.  Each stage that follows the
  snapshot (deduced-hint stripping, uniqueness-preserving hint removal, extra-hint
  reinsertion) preserves it, whatever the order array, the counts and the random
  generator are, and whatever the solver answers: a stage only clears a cell, puts
  back the value it has just cleared, or copies the cell of the snapshot.
\<close>

theorem stages_agree_with_snapshot:
  "(agrees s soln \<longrightarrow> remove_deduced_hints s order n = ok s1 \<longrightarrow> agrees s1 soln)
   \<and> (agrees s soln \<longrightarrow> remove_non_unique_hints s order n g = ok (s2, g2) \<longrightarrow> agrees s2 soln)
   \<and> (agrees s soln \<longrightarrow> add_extra_hints s soln k g = ok (s3, g3) \<longrightarrow> agrees s3 soln)"
  using remove_deduced_hints_agrees remove_non_unique_hints_agrees add_extra_hints_agrees
  by blast

text \<open>
  \<^verbatim>\<open>seed\<close> always returns: it writes a permutation of 1..9 into the first row of the
  grid and clears the other cells.
\<close>

lemma inj_on_nat: "(\<And>x. x \<in> S \<Longrightarrow> 0 \<le> x) \<Longrightarrow> inj_on nat S"
proof (rule inj_onI)
  fix x y assume a: "\<And>x. x \<in> S \<Longrightarrow> 0 \<le> x" and xy: "x \<in> S" "y \<in> S" "nat x = nat y"
  from a xy have "0 \<le> x" "0 \<le> y" by blast+
  with xy(3) show "x = y" by (simp add: eq_nat_nat_iff)
qed

lemma init_shuffled_array_total:
  assumes "0 < n"
  shows "\<exists>a g'. init_shuffled_array n start g = ok (a, g') \<and> length a = n
           \<and> set a = (\<lambda>i. int i + start) ` {..<n} \<and> distinct a"
proof -
  define I where "I j a \<longleftrightarrow> length a = n \<and> take j a = map (\<lambda>i. int i + start) [0..<j]"
    for j :: nat and a :: "int list"
  have "\<exists>a. for_loop 0 n (\<lambda>i numbers. arr_set numbers i (int i + start)) (replicate n 0) = ok a
          \<and> I n a"
  proof (rule for_loop_total)
    show "I 0 (replicate n 0)" by (simp add: I_def)
    show "0 \<le> n" by simp
    fix j a assume j: "0 \<le> j" "j < n" and "I j a"
    then have a: "length a = n" "take j a = map (\<lambda>i. int i + start) [0..<j]"
      by (simp_all add: I_def)
    have "take (Suc j) (a[j := int j + start]) = take j a @ [int j + start]"
      using a j by (simp add: take_Suc_conv_app_nth)
    then show "\<exists>y'. arr_set a j (int j + start) = ok y' \<and> I (Suc j) y'"
      using a j by (simp add: I_def)
  qed
  then obtain a where a: "for_loop 0 n (\<lambda>i numbers. arr_set numbers i (int i + start))
      (replicate n 0) = ok a" "length a = n" "a = map (\<lambda>i. int i + start) [0..<n]"
    by (auto simp: I_def)
  have "n - 1 < length a \<or> n - 1 = 0" using a(2) assms by simp
  from shuffle_from_total [OF this, of g] assms a(2)
  obtain a' g' where sh: "shuffle a n g = ok (a', g')" "length a' = n"
    "set a' = set a" "distinct a' \<longleftrightarrow> distinct a"
    by (auto simp: shuffle_def)
  have "distinct a" unfolding a(3) by (simp add: distinct_map inj_on_def)
  moreover have "set a = (\<lambda>i. int i + start) ` {..<n}" unfolding a(3) by (simp add: lessThan_atLeast0)
  ultimately show ?thesis
    using a(1) sh by (simp add: init_shuffled_array_def)
qed

lemma seed_total:
  assumes len: "length (grid s) = 81"
  shows "\<exists>s1 g1. seed s g = ok (s1, g1) \<and> length (grid s1) = 81
           \<and> set (take 9 (grid s1)) = {1..9} \<and> distinct (take 9 (grid s1))
           \<and> (\<forall>i. 9 \<le> i \<and> i < 81 \<longrightarrow> grid s1 ! i = 0)"
proof -
  from init_shuffled_array_total [of 9 1 g]
  obtain a g1 where a: "init_shuffled_array 9 1 g = ok (a, g1)" "length a = 9"
    "set a = (\<lambda>i. int i + 1) ` {..<9}" "distinct a" by auto
  have rng: "\<And>v. v \<in> set a \<Longrightarrow> 1 \<le> v \<and> v \<le> 9" using a(3) by auto
  define I where "I j gr \<longleftrightarrow> length gr = 81 \<and> take j gr = map nat (take j a)
      \<and> (\<forall>i. j \<le> i \<and> i < 81 \<longrightarrow> gr ! i = 0)" for j :: nat and gr :: "nat list"
  have "\<exists>gr. for_loop 0 9 (\<lambda>i gr. bnd (arr_get a i) (\<lambda>v.
           arr_seti gr (GRID_IDX (int i) 0) (to_value v))) (replicate (length (grid s)) 0) = ok gr
          \<and> I 9 gr"
  proof (rule for_loop_total)
    show "I 0 (replicate (length (grid s)) 0)" by (simp add: I_def len)
    show "(0::nat) \<le> 9" by simp
    fix j gr assume j: "0 \<le> j" "j < 9" and "I j gr"
    then have gr: "length gr = 81" "take j gr = map nat (take j a)"
      "\<forall>i. j \<le> i \<and> i < 81 \<longrightarrow> gr ! i = 0" by (simp_all add: I_def)
    have "a ! j \<in> set a" using j a(2) by simp
    then have "1 \<le> a ! j \<and> a ! j \<le> 9" using rng by blast
    then have v: "to_value (a ! j) = nat (a ! j)" by (simp add: to_value_def)
    have "take (Suc j) (gr[j := nat (a ! j)]) = take j gr @ [nat (a ! j)]"
      using gr j by (simp add: take_Suc_conv_app_nth)
    then have "I (Suc j) (gr[j := nat (a ! j)])"
      using gr j a(2) by (simp add: I_def take_Suc_conv_app_nth)
    then show "\<exists>y'. bnd (arr_get a j) (\<lambda>v.
        arr_seti gr (GRID_IDX (int j) 0) (to_value v)) = ok y' \<and> I (Suc j) y'"
      using j a(2) gr(1) by (simp add: GRID_IDX_def v)
  qed
  then obtain gr where gr: "for_loop 0 9 (\<lambda>i gr. bnd (arr_get a i) (\<lambda>v.
      arr_seti gr (GRID_IDX (int i) 0) (to_value v))) (replicate (length (grid s)) 0) = ok gr"
    "length gr = 81" "take 9 gr = map nat a" "\<forall>i. 9 \<le> i \<and> i < 81 \<longrightarrow> gr ! i = 0"
    using a(2) by (auto simp: I_def)
  have "nat ` set a = {1..9}"
  proof -
    have "\<And>i. nat (int i + 1) = i + 1" by simp
    then have "nat ` set a = (\<lambda>i. i + 1) ` {..<9}"
      unfolding a(3) image_image by simp
    also have "\<dots> = {1..9}"
    proof (intro equalityI subsetI)
      fix x :: nat assume "x \<in> (\<lambda>i. i + 1) ` {..<9}"
      then show "x \<in> {1..9}" by auto
    next
      fix x :: nat assume "x \<in> {1..9}"
      then have "x - 1 \<in> {..<9}" "x = (x - 1) + 1" by auto
      then show "x \<in> (\<lambda>i. i + 1) ` {..<9}" by (rule rev_image_eqI)
    qed
    finally show ?thesis .
  qed
  moreover have "inj_on nat (set a)"
    by (rule inj_on_nat) (use rng in force)
  then have "distinct (map nat a)"
    using a(4) by (simp add: distinct_map)
  ultimately show ?thesis
    using a(1) gr by (simp add: seed_def)
qed

text \<open>\<^verbatim>\<open>sudoku_solve\<close> writes the grid only when the solver reports success.\<close>

lemma sudoku_solve_False:
  assumes "sudoku_solve s g = ok (False, s', g')"
  shows "s' = s"
  using assms
  by (auto simp: sudoku_solve_def bnd_ok_iff split: prod.splits if_splits)

theorem add_extra_hints_fills_witness:
  "length (grid puzzle_example) = 81 \<and> length (grid solved_example) = 81
   \<and> 0 \<notin> set (grid solved_example) \<and> (0::int) \<le> 2
   \<and> (\<exists>s' g'. add_extra_hints puzzle_example solved_example 2 (\<lambda>i. 0) = ok (s', g')
           \<and> length (grid s') = 81
           \<and> filled puzzle_example \<subseteq> filled s'
           \<and> card (filled s' - filled puzzle_example)
               = min (nat 2) (card {i. i < 81 \<and> grid puzzle_example ! i = 0})
           \<and> (\<forall>i \<in> filled s' - filled puzzle_example. grid s' ! i = grid solved_example ! i)
           \<and> (\<forall>i<81. i \<notin> filled s' - filled puzzle_example
                 \<longrightarrow> grid s' ! i = grid puzzle_example ! i))"
proof -
  have h: "length (grid puzzle_example) = 81" "length (grid solved_example) = 81"
    "0 \<notin> set (grid solved_example)" "(0::int) \<le> 2"
    by (simp_all add: puzzle_example_def solved_example_def)
  from add_extra_hints_fills [OF h, of "\<lambda>i. 0"] h show ?thesis by blast
qed

lemma remove_deduced_hints_example:
  "remove_deduced_hints solved_example [0, 40] 2
     = ok (puzzle_example\<lparr>grid := (grid puzzle_example)[80 := 8]\<rparr>)"
  by (simp add: remove_deduced_hints_def deduce_step_def for_loop.simps solved_example_def
      puzzle_example_def all_on_def GRID_X_def GRID_Y_def SEC_IDX_def GRID_IDX_def Let_def
      arr_get_def arr_geti_def arr_seti_def shl1_def signed_divide_int_def
      signed_modulo_int_def replicate_numeral)

lemma remove_non_unique_hints_example:
  "remove_non_unique_hints puzzle_example [0] 1 g = ok (puzzle_example, g)"
  by (simp add: remove_non_unique_hints_def unique_step_def for_loop.simps puzzle_example_def
      GRID_X_def GRID_Y_def GRID_IDX_def Let_def arr_get_def arr_geti_def
      signed_divide_int_def signed_modulo_int_def)

lemma agrees_example: "agrees puzzle_example solved_example" "agrees solved_example solved_example"
  by (simp_all add: agrees_def puzzle_example_def solved_example_def)

theorem stages_agree_with_snapshot_witness:
  "agrees solved_example solved_example \<and> agrees puzzle_example solved_example
   \<and> (\<exists>s1. remove_deduced_hints solved_example [0, 40] 2 = ok s1 \<and> agrees s1 solved_example)
   \<and> (\<exists>s2 g2. remove_non_unique_hints puzzle_example [0] 1 (\<lambda>i. 0) = ok (s2, g2)
         \<and> agrees s2 solved_example)
   \<and> (\<exists>s3 g3. add_extra_hints puzzle_example solved_example 2 (\<lambda>i. 0) = ok (s3, g3)
         \<and> agrees s3 solved_example)"
proof -
  have h: "length (grid puzzle_example) = 81" "length (grid solved_example) = 81"
    "0 \<notin> set (grid solved_example)" "(0::int) \<le> 2"
    by (simp_all add: puzzle_example_def solved_example_def)
  from add_extra_hints_total [OF h, of "\<lambda>i. 0"]
  obtain s3 g3 where r3: "add_extra_hints puzzle_example solved_example 2 (\<lambda>i. 0) = ok (s3, g3)"
    by blast
  note r1 = remove_deduced_hints_example
  note r2 = remove_non_unique_hints_example [of "\<lambda>i. 0"]
  have "agrees (puzzle_example\<lparr>grid := (grid puzzle_example)[80 := 8]\<rparr>) solved_example"
    using stages_agree_with_snapshot
      [where s = solved_example and soln = solved_example and order = "[0, 40]" and n = 2]
      agrees_example(2) r1
    by blast
  moreover have "agrees puzzle_example solved_example"
    using stages_agree_with_snapshot
      [where s = puzzle_example and soln = solved_example and order = "[0]" and n = 1
        and g = "\<lambda>i. 0"]
      agrees_example(1) r2
    by blast
  moreover have "agrees s3 solved_example"
    using stages_agree_with_snapshot
      [where s = puzzle_example and soln = solved_example and k = 2 and g = "\<lambda>i. 0"]
      agrees_example(1) r3
    by blast
  ultimately show ?thesis using r1 r2 r3 agrees_example by blast
qed


section \<open>Linked rings\<close>

text \<open>
  \<open>chain nx a xs b\<close>: following the pointers \<open>nx\<close> from \<open>a\<close> visits the nodes \<open>xs\<close> in
  order and then reaches \<open>b\<close>.
\<close>

fun chain :: "(nat \<Rightarrow> ptr) \<Rightarrow> nat \<Rightarrow> nat list \<Rightarrow> nat \<Rightarrow> bool" where
  "chain nx a [] b \<longleftrightarrow> nx a = Some b"
| "chain nx a (x # xs) b \<longleftrightarrow> nx a = Some x \<and> chain nx x xs b"

text \<open>A ring with the two directions: \<open>h\<close> followed by \<open>xs\<close>, and back.\<close>

definition dring :: "(nat \<Rightarrow> ptr) \<Rightarrow> (nat \<Rightarrow> ptr) \<Rightarrow> nat \<Rightarrow> nat list \<Rightarrow> bool" where
  "dring nx pv h xs \<longleftrightarrow> distinct (h # xs) \<and> chain nx h xs h \<and> chain pv h (rev xs) h"

lemma chain_append:
  "chain nx a (xs @ y # ys) b \<longleftrightarrow> chain nx a xs y \<and> chain nx y ys b"
  by (induction xs arbitrary: a) auto

lemma chain_snoc: "chain nx a (xs @ [y]) b \<longleftrightarrow> chain nx a xs y \<and> nx y = Some b"
  by (simp add: chain_append)

lemma chain_cong:
  "(\<And>x. x \<in> set (a # xs) \<Longrightarrow> nx x = nx' x) \<Longrightarrow> chain nx a xs b = chain nx' a xs b"
  by (induction xs arbitrary: a) auto

lemma chain_last: "chain nx a xs b \<Longrightarrow> nx (last (a # xs)) = Some b"
  by (induction xs arbitrary: a) auto

lemma chain_hd: "chain nx a xs b \<Longrightarrow> nx a = Some (hd (xs @ [b]))"
  by (cases xs) auto

lemma chain_unlink:
  assumes "chain nx a (xs @ n # ys) b" "distinct (a # xs @ n # ys)"
  shows "chain (nx(last (a # xs) := Some (hd (ys @ [b])))) a (xs @ ys) b"
  using assms
proof (induction xs arbitrary: a)
  case Nil
  have "chain (nx(a := Some (hd (ys @ [b])))) a ys b"
  proof (cases ys)
    case Nil
    then show ?thesis by simp
  next
    case (Cons y ys')
    have "chain nx y ys' b" using Nil.prems(1) Cons by simp
    moreover have "\<And>x. x \<in> set (y # ys') \<Longrightarrow> (nx(a := Some y)) x = nx x"
      using Nil.prems(2) Cons by auto
    ultimately have "chain (nx(a := Some y)) y ys' b"
      using chain_cong [of y ys' "nx(a := Some y)" nx b] by blast
    then show ?thesis using Cons by simp
  qed
  then show "chain (nx(last (a # []) := Some (hd (ys @ [b])))) a ([] @ ys) b" by simp
next
  case (Cons x xs)
  have ch: "chain nx x (xs @ n # ys) b" and d: "distinct (x # xs @ n # ys)" and ax: "nx a = Some x"
    using Cons.prems by auto
  define p where "p = last (x # xs)"
  have "chain (nx(p := Some (hd (ys @ [b])))) x (xs @ ys) b"
    unfolding p_def by (rule Cons.IH [OF ch d])
  moreover have "p \<in> set (x # xs)" unfolding p_def by (rule last_in_set) simp
  then have "p \<noteq> a" using Cons.prems(2) by auto
  moreover have "last (a # x # xs) = p" by (simp add: p_def)
  ultimately show "chain (nx(last (a # x # xs) := Some (hd (ys @ [b])))) a ((x # xs) @ ys) b"
    using ax by simp
qed

lemma chain_relink:
  assumes "chain nx a (xs @ ys) b" "distinct (a # xs @ ys)" "n \<notin> set (a # xs @ ys)"
    and "nx n = Some (hd (ys @ [b]))"
  shows "chain (nx(last (a # xs) := Some n)) a (xs @ n # ys) b"
  using assms
proof (induction xs arbitrary: a)
  case Nil
  have "chain (nx(a := Some n)) n ys b"
  proof (cases ys)
    case Nil
    then show ?thesis using Nil.prems by simp
  next
    case (Cons y ys')
    have "chain nx y ys' b" using Nil.prems(1) Cons by simp
    moreover have "\<And>x. x \<in> set (y # ys') \<Longrightarrow> (nx(a := Some n)) x = nx x"
      using Nil.prems(2) Cons by auto
    ultimately have "chain (nx(a := Some n)) y ys' b"
      using chain_cong [of y ys' "nx(a := Some n)" nx b] by blast
    then show ?thesis using Cons Nil.prems by simp
  qed
  then show "chain (nx(last (a # []) := Some n)) a ([] @ n # ys) b" by simp
next
  case (Cons x xs)
  have ch: "chain nx x (xs @ ys) b" and d: "distinct (x # xs @ ys)"
    and n: "n \<notin> set (x # xs @ ys)" and ax: "nx a = Some x"
    using Cons.prems by auto
  define p where "p = last (x # xs)"
  have "chain (nx(p := Some n)) x (xs @ n # ys) b"
    unfolding p_def by (rule Cons.IH [OF ch d n Cons.prems(4)])
  moreover have "p \<in> set (x # xs)" unfolding p_def by (rule last_in_set) simp
  then have "p \<noteq> a" using Cons.prems(2) by auto
  moreover have "last (a # x # xs) = p" by (simp add: p_def)
  ultimately show "chain (nx(last (a # x # xs) := Some n)) a ((x # xs) @ n # ys) b"
    using ax by simp
qed

lemma dring_cong:
  "(\<And>x. x \<in> set (h # xs) \<Longrightarrow> nx x = nx' x \<and> pv x = pv' x)
     \<Longrightarrow> dring nx pv h xs = dring nx' pv' h xs"
  unfolding dring_def
  using chain_cong [of h xs nx nx' h] chain_cong [of h "rev xs" pv pv' h] by auto

text \<open>The neighbours of a node of a ring.\<close>

lemma dring_neighbours:
  assumes "dring nx pv h (xs @ n # ys)"
  defines "p \<equiv> last (h # xs)" and "q \<equiv> hd (ys @ [h])"
  shows "nx n = Some q" "pv n = Some p" "nx p = Some n" "pv q = Some n" "p \<noteq> n" "q \<noteq> n"
    "p \<in> set (h # xs)" "q \<in> set (h # ys)"
proof -
  have d: "distinct (h # xs @ n # ys)" and c1: "chain nx h (xs @ n # ys) h"
    and c2: "chain pv h (rev ys @ n # rev xs) h"
    using assms(1) by (simp_all add: dring_def)
  from c1 have a: "chain nx h xs n" "chain nx n ys h" by (simp_all add: chain_append)
  from c2 have b: "chain pv h (rev ys) n" "chain pv n (rev xs) h" by (simp_all add: chain_append)
  show "nx n = Some q" using chain_hd [OF a(2)] by (simp add: q_def)
  show "nx p = Some n" using chain_last [OF a(1)] by (simp add: p_def)
  have "hd (rev xs @ [h]) = last (h # xs)" by (cases xs rule: rev_cases) auto
  then show "pv n = Some p" using chain_hd [OF b(2)] by (simp add: p_def)
  have "last (h # rev ys) = hd (ys @ [h])" by (cases ys) auto
  then show "pv q = Some n" using chain_last [OF b(1)] by (simp add: q_def)
  show "p \<in> set (h # xs)" unfolding p_def by (metis last_in_set list.distinct(1))
  then show "p \<noteq> n" using d by auto
  show "q \<in> set (h # ys)" unfolding q_def by (cases ys) auto
  then show "q \<noteq> n" using d by auto
qed

lemma dring_unlink:
  assumes "dring nx pv h (xs @ n # ys)"
  shows "dring (nx(last (h # xs) := Some (hd (ys @ [h])))) (pv(hd (ys @ [h]) := Some (last (h # xs))))
           h (xs @ ys)"
proof -
  have d: "distinct (h # xs @ n # ys)" and c1: "chain nx h (xs @ n # ys) h"
    and c2: "chain pv h (rev ys @ n # rev xs) h"
    using assms(1) by (simp_all add: dring_def)
  have d2: "distinct (h # rev ys @ n # rev xs)" using d by auto
  have e1: "hd (rev xs @ [h]) = last (h # xs)" by (cases xs rule: rev_cases) auto
  have e2: "last (h # rev ys) = hd (ys @ [h])" by (cases ys) auto
  have "chain (pv(hd (ys @ [h]) := Some (last (h # xs)))) h (rev ys @ rev xs) h"
    using chain_unlink [OF c2 d2] unfolding e1 e2 .
  moreover have "distinct (h # xs @ ys)" using d by auto
  ultimately show ?thesis
    using chain_unlink [OF c1 d] unfolding dring_def rev_append by blast
qed

lemma dring_relink:
  assumes "dring nx pv h (xs @ ys)" "n \<notin> set (h # xs @ ys)"
    and "nx n = Some (hd (ys @ [h]))" "pv n = Some (last (h # xs))"
  shows "dring (nx(last (h # xs) := Some n)) (pv(hd (ys @ [h]) := Some n)) h (xs @ n # ys)"
proof -
  have d: "distinct (h # xs @ ys)" and c1: "chain nx h (xs @ ys) h"
    and c2: "chain pv h (rev ys @ rev xs) h"
    using assms(1) by (simp_all add: dring_def)
  have d2: "distinct (h # rev ys @ rev xs)" using d by auto
  have n2: "n \<notin> set (h # rev ys @ rev xs)" using assms(2) by auto
  have e1: "hd (rev xs @ [h]) = last (h # xs)" by (cases xs rule: rev_cases) auto
  have e2: "last (h # rev ys) = hd (ys @ [h])" by (cases ys) auto
  have "pv n = Some (hd (rev xs @ [h]))" unfolding e1 by (rule assms(4))
  from chain_relink [OF c2 d2 n2 this]
  have "chain (pv(hd (ys @ [h]) := Some n)) h (rev ys @ n # rev xs) h"
    unfolding e2 .
  then have "chain (pv(hd (ys @ [h]) := Some n)) h (rev (xs @ n # ys)) h" by simp
  moreover have "distinct (h # xs @ n # ys)" using d assms(2) by auto
  ultimately show ?thesis
    using chain_relink [OF c1 d assms(2,3)] unfolding dring_def by blast
qed

section \<open>Loops that walk a chain\<close>

lemma while_loop_fold:
  assumes "chain nx a xs b" and "e \<notin> set xs" and "Q 0 st0"
    and "\<And>i st. i < length xs \<Longrightarrow> Q i st \<Longrightarrow>
           body (st, Some (xs ! i)) = ok (f (xs ! i) st, nx (xs ! i)) \<and> Q (Suc i) (f (xs ! i) st)"
  shows "while_loop (\<lambda>(st, p). p \<noteq> Some e) body (st0, nx a)
           = while_loop (\<lambda>(st, p). p \<noteq> Some e) body (fold f xs st0, Some b)
         \<and> Q (length xs) (fold f xs st0)"
  using assms
proof (induction xs arbitrary: a st0 Q)
  case Nil
  then show ?case by simp
next
  case (Cons x xs)
  have ax: "nx a = Some x" and ch: "chain nx x xs b" and xe: "x \<noteq> e" and e: "e \<notin> set xs"
    using Cons.prems(1,2) by auto
  from Cons.prems(4) [of 0 st0] Cons.prems(3)
  have b: "body (st0, Some x) = ok (f x st0, nx x)" and q: "Q (Suc 0) (f x st0)" by auto
  have "while_loop (\<lambda>(st, p). p \<noteq> Some e) body (f x st0, nx x)
          = while_loop (\<lambda>(st, p). p \<noteq> Some e) body (fold f xs (f x st0), Some b)
      \<and> Q (Suc (length xs)) (fold f xs (f x st0))"
  proof (rule Cons.IH [OF ch e, where Q = "\<lambda>i. Q (Suc i)"])
    show "Q (Suc 0) (f x st0)" by fact
    fix i st assume "i < length xs" "Q (Suc i) st"
    then show "body (st, Some (xs ! i)) = ok (f (xs ! i) st, nx (xs ! i))
        \<and> Q (Suc (Suc i)) (f (xs ! i) st)"
      using Cons.prems(4) [of "Suc i" st] by simp
  qed
  moreover have "while_loop (\<lambda>(st, p). p \<noteq> Some e) body (st0, nx a)
      = while_loop (\<lambda>(st, p). p \<noteq> Some e) body (f x st0, nx x)"
    using xe b by (subst while_loop.simps) (simp add: ax)
  ultimately show ?case by simp
qed

lemma while_loop_exit: "while_loop (\<lambda>(st, p). p \<noteq> Some e) body (st, Some e) = ok (st, Some e)"
  by (subst while_loop.simps) simp

lemma fold_invariant:
  assumes "Q 0 s0"
    and "\<And>i s. i < length xs \<Longrightarrow> Q i s \<Longrightarrow> Q (Suc i) (f (xs ! i) s)"
    and "k \<le> length xs"
  shows "Q k (fold f (take k xs) s0)"
  using assms
proof (induction k)
  case 0
  then show ?case by simp
next
  case (Suc k)
  then have "Q k (fold f (take k xs) s0)" and k: "k < length xs" by simp_all
  then have "Q (Suc k) (f (xs ! k) (fold f (take k xs) s0))" using Suc.prems(2) by blast
  then show ?case using k by (simp add: take_Suc_conv_app_nth)
qed

text \<open>
  Undoing a walk: when each step of the backward loop undoes the matching step of the
  forward walk, the backward loop over the reversed list returns to the start state.
\<close>

lemma while_loop_unfold:
  assumes "chain pv a (rev xs) b" and "e \<notin> set xs"
    and "\<And>k. k < length xs \<Longrightarrow>
           body (fold f (take (Suc k) xs) s0, Some (xs ! k)) = ok (fold f (take k xs) s0, pv (xs ! k))"
  shows "while_loop (\<lambda>(st, p). p \<noteq> Some e) body (fold f xs s0, pv a)
           = while_loop (\<lambda>(st, p). p \<noteq> Some e) body (s0, Some b)"
  using assms
proof (induction xs arbitrary: a rule: rev_induct)
  case Nil
  then show ?case by simp
next
  case (snoc y ys)
  have ay: "pv a = Some y" and ch: "chain pv y (rev ys) b" and ye: "y \<noteq> e" and e: "e \<notin> set ys"
    using snoc.prems(1,2) by auto
  have b: "body (fold f (ys @ [y]) s0, Some y) = ok (fold f ys s0, pv y)"
    using snoc.prems(3) [of "length ys"] by simp
  have "while_loop (\<lambda>(st, p). p \<noteq> Some e) body (fold f ys s0, pv y)
      = while_loop (\<lambda>(st, p). p \<noteq> Some e) body (s0, Some b)"
  proof (rule snoc.IH [OF ch e])
    fix k assume k: "k < length ys"
    then show "body (fold f (take (Suc k) ys) s0, Some (ys ! k))
        = ok (fold f (take k ys) s0, pv (ys ! k))"
      using snoc.prems(3) [of k] by (simp add: nth_append)
  qed
  moreover have "while_loop (\<lambda>(st, p). p \<noteq> Some e) body (fold f (ys @ [y]) s0, pv a)
      = while_loop (\<lambda>(st, p). p \<noteq> Some e) body (fold f ys s0, pv y)"
    using ye b by (subst while_loop.simps) (simp add: ay)
  ultimately show ?case by simp
qed

lemma fold_inverse:
  assumes "Q 0 s0"
    and "\<And>i s. i < length xs \<Longrightarrow> Q i s \<Longrightarrow> g (xs ! i) (f (xs ! i) s) = s \<and> Q (Suc i) (f (xs ! i) s)"
  shows "fold g (rev xs) (fold f xs s0) = s0"
  using assms
proof (induction xs arbitrary: s0 Q)
  case Nil
  then show ?case by simp
next
  case (Cons x xs)
  from Cons.prems(2) [of 0 s0] Cons.prems(1)
  have a: "g x (f x s0) = s0" "Q (Suc 0) (f x s0)" by auto
  have "fold g (rev xs) (fold f xs (f x s0)) = f x s0"
  proof (rule Cons.IH [where Q = "\<lambda>i. Q (Suc i)"])
    show "Q (Suc 0) (f x s0)" by fact
    fix i s assume "i < length xs" "Q (Suc i) s"
    then show "g (xs ! i) (f (xs ! i) s) = s \<and> Q (Suc (Suc i)) (f (xs ! i) s)"
      using Cons.prems(2) [of "Suc i" s] by simp
  qed
  then show ?case using a by simp
qed


section \<open>The arena as a heap\<close>

definition upd :: "nat \<Rightarrow> (node \<Rightarrow> node) \<Rightarrow> node list \<Rightarrow> node list" where
  "upd i f ns = ns[i := f (ns ! i)]"

lemma length_upd [simp]: "length (upd i f ns) = length ns"
  by (simp add: upd_def)

lemma nth_upd_eq [simp]: "i < length ns \<Longrightarrow> upd i f ns ! i = f (ns ! i)"
  by (simp add: upd_def)

lemma nth_upd_neq [simp]: "j \<noteq> i \<Longrightarrow> upd i f ns ! j = ns ! j"
  by (simp add: upd_def)

lemma deref_ok [simp]: "i < length ns \<Longrightarrow> deref ns (Some i) = ok (ns ! i)"
  by (simp add: deref_def)

lemma assign_ok [simp]: "i < length ns \<Longrightarrow> assign ns (Some i) f = ok (upd i f ns)"
  by (simp add: assign_def upd_def)

definition Dn :: "node list \<Rightarrow> nat \<Rightarrow> ptr" where "Dn ns i = down (ns ! i)"
definition Up :: "node list \<Rightarrow> nat \<Rightarrow> ptr" where "Up ns i = up (ns ! i)"
definition Rt :: "node list \<Rightarrow> nat \<Rightarrow> ptr" where "Rt ns i = right (ns ! i)"
definition Lf :: "node list \<Rightarrow> nat \<Rightarrow> ptr" where "Lf ns i = left (ns ! i)"

lemma udec_uinc:
  assumes "0 < x" "x < 2 ^ 64"
  shows "uinc (udec x) = x \<and> udec x = x - 1"
proof -
  define M :: nat where "M = 2 ^ 64"
  obtain y where y: "x = Suc y" using assms(1) by (cases x) auto
  have yM: "y < M" "Suc y < M" using assms(2) y by (simp_all add: M_def)
  have "udec x = (y + M) mod M"
    unfolding udec_def usub_def M_def [symmetric] y by simp
  then have d: "udec x = y" using yM by simp
  have "uinc y = Suc y mod M"
    unfolding uinc_def M_def [symmetric] by simp
  then have "uinc y = Suc y" using yM by simp
  then show ?thesis using d unfolding y by simp
qed

text \<open>The effect of the body of the inner loop of \<^verbatim>\<open>cover\<close> on a node that is linked in.\<close>

definition unlink_v :: "nat \<Rightarrow> node list \<Rightarrow> node list" where
  "unlink_v n ns =
     (let ns1 = upd (the (up (ns ! n))) (\<lambda>u. u\<lparr>down := down (ns ! n)\<rparr>) ns;
          ns2 = upd (the (down (ns1 ! n))) (\<lambda>d. d\<lparr>up := up (ns1 ! n)\<rparr>) ns1
      in upd (the (column (ns2 ! n))) (\<lambda>c. c\<lparr>count := udec (count c)\<rparr>) ns2)"

definition vlinked :: "node list \<Rightarrow> nat \<Rightarrow> nat \<Rightarrow> nat \<Rightarrow> nat \<Rightarrow> bool" where
  "vlinked ns n u d c \<longleftrightarrow> n < length ns \<and> u < length ns \<and> d < length ns \<and> c < length ns
     \<and> up (ns ! n) = Some u \<and> down (ns ! n) = Some d \<and> column (ns ! n) = Some c
     \<and> u \<noteq> n \<and> d \<noteq> n \<and> c \<noteq> n
     \<and> down (ns ! u) = Some n \<and> up (ns ! d) = Some n
     \<and> 0 < count (ns ! c) \<and> count (ns ! c) < 2 ^ 64"

lemma unlink_v_nth:
  assumes "vlinked ns n u d c"
  shows "length (unlink_v n ns) = length ns"
    and "\<And>i. down (unlink_v n ns ! i) = (if i = u then Some d else down (ns ! i))"
    and "\<And>i. up (unlink_v n ns ! i) = (if i = d then Some u else up (ns ! i))"
    and "\<And>i. count (unlink_v n ns ! i) = (if i = c then count (ns ! c) - 1 else count (ns ! i))"
    and "\<And>i. left (unlink_v n ns ! i) = left (ns ! i)"
    and "\<And>i. right (unlink_v n ns ! i) = right (ns ! i)"
    and "\<And>i. column (unlink_v n ns ! i) = column (ns ! i)"
    and "\<And>i. rownum (unlink_v n ns ! i) = rownum (ns ! i)"
proof -
  have v: "n < length ns" "u < length ns" "d < length ns" "c < length ns"
    "up (ns ! n) = Some u" "down (ns ! n) = Some d" "column (ns ! n) = Some c"
    "u \<noteq> n" "d \<noteq> n" "c \<noteq> n" "0 < count (ns ! c)" "count (ns ! c) < 2 ^ 64"
    using assms by (simp_all add: vlinked_def)
  define ns1 where "ns1 = upd u (\<lambda>x. x\<lparr>down := Some d\<rparr>) ns"
  define ns2 where "ns2 = upd d (\<lambda>x. x\<lparr>up := Some u\<rparr>) ns1"
  have n1: "ns1 ! n = ns ! n" using v by (simp add: ns1_def)
  have n2: "ns2 ! n = ns ! n" using v n1 by (simp add: ns2_def)
  have eq: "unlink_v n ns = upd c (\<lambda>x. x\<lparr>count := udec (count x)\<rparr>) ns2"
    using v by (simp add: unlink_v_def Let_def ns1_def [symmetric] n1 ns2_def [symmetric] n2)
  have nth1: "\<And>i. ns1 ! i = (if i = u then (ns ! u)\<lparr>down := Some d\<rparr> else ns ! i)"
    using v by (simp add: ns1_def)
  have nth2: "\<And>i. ns2 ! i = (if i = d then (ns1 ! d)\<lparr>up := Some u\<rparr> else ns1 ! i)"
    using v by (simp add: ns2_def ns1_def)
  have nth3: "\<And>i. unlink_v n ns ! i
      = (if i = c then (ns2 ! c)\<lparr>count := udec (count (ns2 ! c))\<rparr> else ns2 ! i)"
    using v by (simp add: eq ns2_def ns1_def)
  have cnt: "count (ns2 ! c) = count (ns ! c)" by (simp add: nth2 nth1)
  show "length (unlink_v n ns) = length ns" by (simp add: eq ns2_def ns1_def)
  show "\<And>i. down (unlink_v n ns ! i) = (if i = u then Some d else down (ns ! i))"
    by (simp add: nth3 nth2 nth1)
  show "\<And>i. up (unlink_v n ns ! i) = (if i = d then Some u else up (ns ! i))"
    by (simp add: nth3 nth2 nth1)
  show "\<And>i. count (unlink_v n ns ! i) = (if i = c then count (ns ! c) - 1 else count (ns ! i))"
    using udec_uinc [OF v(11,12)] by (simp add: nth3 cnt) (simp add: nth2 nth1)
  show "\<And>i. left (unlink_v n ns ! i) = left (ns ! i)" by (simp add: nth3 nth2 nth1)
  show "\<And>i. right (unlink_v n ns ! i) = right (ns ! i)" by (simp add: nth3 nth2 nth1)
  show "\<And>i. column (unlink_v n ns ! i) = column (ns ! i)" by (simp add: nth3 nth2 nth1)
  show "\<And>i. rownum (unlink_v n ns ! i) = rownum (ns ! i)" by (simp add: nth3 nth2 nth1)
qed

lemma cover_node_ok:
  assumes "vlinked ns n u d c"
  shows "cover_node (ns, Some n) = ok (unlink_v n ns, right (ns ! n))"
proof -
  have v: "n < length ns" "u < length ns" "d < length ns" "c < length ns"
    "up (ns ! n) = Some u" "down (ns ! n) = Some d" "column (ns ! n) = Some c"
    "u \<noteq> n" "d \<noteq> n" "c \<noteq> n"
    using assms by (simp_all add: vlinked_def)
  show ?thesis
    using v by (simp add: cover_node_def unlink_v_def Let_def)
qed

lemma node_eqI:
  fixes a b :: node
  assumes "left a = left b" "right a = right b" "up a = up b" "down a = down b"
    "column a = column b" "count a = count b" "rownum a = rownum b"
  shows "a = b"
  using assms by (cases a, cases b) simp

lemma uncover_node_ok:
  assumes "vlinked ns n u d c"
  shows "uncover_node (unlink_v n ns, Some n) = ok (ns, left (ns ! n))"
proof -
  have v: "n < length ns" "u < length ns" "d < length ns" "c < length ns"
    "up (ns ! n) = Some u" "down (ns ! n) = Some d" "column (ns ! n) = Some c"
    "u \<noteq> n" "d \<noteq> n" "c \<noteq> n" "down (ns ! u) = Some n" "up (ns ! d) = Some n"
    "0 < count (ns ! c)" "count (ns ! c) < 2 ^ 64"
    using assms by (simp_all add: vlinked_def)
  note f = unlink_v_nth [OF assms]
  define h where "h = unlink_v n ns"
  define h1 where "h1 = upd u (\<lambda>x. x\<lparr>down := Some n\<rparr>) h"
  define h2 where "h2 = upd d (\<lambda>x. x\<lparr>up := Some n\<rparr>) h1"
  define h3 where "h3 = upd c (\<lambda>x. x\<lparr>count := uinc (count x)\<rparr>) h2"
  have len: "length h = length ns" by (simp add: h_def f)
  have hn: "up (h ! n) = Some u" "down (h ! n) = Some d" "column (h ! n) = Some c"
    "left (h ! n) = left (ns ! n)"
    using v by (simp_all add: h_def f)
  have n1: "h1 ! n = h ! n" using v by (simp add: h1_def)
  have n2: "h2 ! n = h ! n" using v n1 by (simp add: h2_def)
  have n3: "h3 ! n = h ! n" using v n2 by (simp add: h3_def)
  have l: "length h1 = length ns" "length h2 = length ns" "length h3 = length ns"
    by (simp_all add: h3_def h2_def h1_def len)
  have run: "uncover_node (h, Some n) = ok (h3, left (ns ! n))"
    using v len hn l
    by (simp add: uncover_node_def h1_def [symmetric] n1 h2_def [symmetric] n2
        h3_def [symmetric] n3)
  have nth1: "\<And>i. h1 ! i = (if i = u then (h ! u)\<lparr>down := Some n\<rparr> else h ! i)"
    using v len by (simp add: h1_def)
  have nth2: "\<And>i. h2 ! i = (if i = d then (h1 ! d)\<lparr>up := Some n\<rparr> else h1 ! i)"
    using v len by (simp add: h2_def h1_def)
  have nth3: "\<And>i. h3 ! i = (if i = c then (h2 ! c)\<lparr>count := uinc (count (h2 ! c))\<rparr> else h2 ! i)"
    using v len by (simp add: h3_def h2_def h1_def)
  have cnt: "count (h2 ! c) = count (ns ! c) - 1" by (simp add: nth2 nth1 h_def f)
  have "uinc (count (ns ! c) - 1) = count (ns ! c)"
    using udec_uinc [OF v(13,14)] by metis
  then have cnt3: "count (h3 ! c) = count (ns ! c)" by (simp add: nth3 cnt)
  have "h3 = ns"
  proof (rule nth_equalityI)
    show "length h3 = length ns" by (simp add: h3_def h2_def h1_def len)
    fix i assume "i < length h3"
    show "h3 ! i = ns ! i"
    proof (rule node_eqI)
      show "left (h3 ! i) = left (ns ! i)" by (simp add: nth3 nth2 nth1 h_def f)
      show "right (h3 ! i) = right (ns ! i)" by (simp add: nth3 nth2 nth1 h_def f)
      show "column (h3 ! i) = column (ns ! i)" by (simp add: nth3 nth2 nth1 h_def f)
      show "rownum (h3 ! i) = rownum (ns ! i)" by (simp add: nth3 nth2 nth1 h_def f)
      show "up (h3 ! i) = up (ns ! i)" using v by (auto simp: nth3 nth2 nth1 h_def f)
      show "down (h3 ! i) = down (ns ! i)" using v by (auto simp: nth3 nth2 nth1 h_def f)
      show "count (h3 ! i) = count (ns ! i)"
        using cnt3 by (cases "i = c") (simp_all add: nth3 nth2 nth1 h_def f)
    qed
  qed
  then show ?thesis using run by (simp add: h_def)
qed


section \<open>The invariant of the graph\<close>

text \<open>
  The nodes of a row that follow the node \<open>n\<close>, in the order of the ring, up to the
  node before \<open>n\<close>.
\<close>

definition rot_at :: "nat \<Rightarrow> nat list \<Rightarrow> nat list" where
  "rot_at n rw = tl (dropWhile (\<lambda>x. x \<noteq> n) rw) @ takeWhile (\<lambda>x. x \<noteq> n) rw"

definition others :: "(nat \<Rightarrow> nat list) \<Rightarrow> nat \<Rightarrow> nat list" where
  "others row n = rot_at n (row n)"

lemma rot_at_split:
  assumes "n \<notin> set xs"
  shows "rot_at n (xs @ n # ys) = ys @ xs"
proof -
  have "takeWhile (\<lambda>x. x \<noteq> n) (xs @ n # ys) = xs" using assms by (induction xs) auto
  moreover have "dropWhile (\<lambda>x. x \<noteq> n) (xs @ n # ys) = n # ys"
    using assms by (induction xs) auto
  ultimately show ?thesis by (simp add: rot_at_def)
qed

lemma rot_at_props:
  assumes "distinct rw" "n \<in> set rw"
  shows "set (rot_at n rw) = set rw - {n}" "distinct (rot_at n rw)"
proof -
  from split_list [OF assms(2)] obtain xs ys where rw: "rw = xs @ n # ys" by blast
  have nx: "n \<notin> set xs" "n \<notin> set ys" using assms(1) rw by auto
  have r: "rot_at n rw = ys @ xs" unfolding rw by (rule rot_at_split [OF nx(1)])
  show "set (rot_at n rw) = set rw - {n}" unfolding r using nx by (auto simp: rw)
  show "distinct (rot_at n rw)" unfolding r using assms(1) by (auto simp: rw)
qed

text \<open>
  The part of the graph that the search never changes: the data nodes \<open>DN\<close> lie above
  the root \<open>nc\<close>, every data node belongs to a row \<open>row n\<close> whose nodes lie in distinct
  columns, and the \<^verbatim>\<open>left\<close> and \<^verbatim>\<open>right\<close> pointers make each row a ring.
\<close>

definition static :: "nat \<Rightarrow> nat set \<Rightarrow> (nat \<Rightarrow> nat list) \<Rightarrow> node list \<Rightarrow> bool" where
  "static nc DN row ns \<longleftrightarrow> nc < length ns \<and> length ns < 2 ^ 64
     \<and> (\<forall>n\<in>DN. nc < n \<and> n < length ns \<and> n \<in> set (row n) \<and> set (row n) \<subseteq> DN
           \<and> distinct (row n) \<and> (\<forall>m\<in>set (row n). row m = row n)
           \<and> (\<exists>c<nc. column (ns ! n) = Some c)
           \<and> inj_on (\<lambda>m. column (ns ! m)) (set (row n))
           \<and> chain (Rt ns) n (others row n) n \<and> chain (Lf ns) n (rev (others row n)) n)"

lemma staticD:
  assumes "static nc DN row ns" "n \<in> DN"
  shows "nc < n" "n < length ns" "n \<in> set (row n)" "set (row n) \<subseteq> DN" "distinct (row n)"
    "\<forall>m\<in>set (row n). row m = row n" "\<exists>c<nc. column (ns ! n) = Some c"
    "inj_on (\<lambda>m. column (ns ! m)) (set (row n))"
    "chain (Rt ns) n (others row n) n" "chain (Lf ns) n (rev (others row n)) n"
proof -
  from assms(1) have "\<forall>n\<in>DN. nc < n \<and> n < length ns \<and> n \<in> set (row n) \<and> set (row n) \<subseteq> DN
           \<and> distinct (row n) \<and> (\<forall>m\<in>set (row n). row m = row n)
           \<and> (\<exists>c<nc. column (ns ! n) = Some c)
           \<and> inj_on (\<lambda>m. column (ns ! m)) (set (row n))
           \<and> chain (Rt ns) n (others row n) n \<and> chain (Lf ns) n (rev (others row n)) n"
    unfolding static_def by (elim conjE)
  then have *: "nc < n \<and> n < length ns \<and> n \<in> set (row n) \<and> set (row n) \<subseteq> DN
           \<and> distinct (row n) \<and> (\<forall>m\<in>set (row n). row m = row n)
           \<and> (\<exists>c<nc. column (ns ! n) = Some c)
           \<and> inj_on (\<lambda>m. column (ns ! m)) (set (row n))
           \<and> chain (Rt ns) n (others row n) n \<and> chain (Lf ns) n (rev (others row n)) n"
    using assms(2) by (rule bspec)
  show "nc < n" "n < length ns" "n \<in> set (row n)" "set (row n) \<subseteq> DN" "distinct (row n)"
    "\<forall>m\<in>set (row n). row m = row n" "\<exists>c<nc. column (ns ! n) = Some c"
    "inj_on (\<lambda>m. column (ns ! m)) (set (row n))"
    "chain (Rt ns) n (others row n) n" "chain (Lf ns) n (rev (others row n)) n"
    using * by blast+
qed

lemma static_len: "static nc DN row ns \<Longrightarrow> nc < length ns \<and> length ns < 2 ^ 64"
  unfolding static_def by (elim conjE) simp

text \<open>The vertical ring of the column \<open>c\<close> holds the nodes \<open>xs\<close>, from top to bottom.\<close>

definition vring :: "node list \<Rightarrow> nat \<Rightarrow> nat list \<Rightarrow> bool" where
  "vring ns c xs \<longleftrightarrow> dring (Dn ns) (Up ns) c xs \<and> count (ns ! c) = length xs
     \<and> (\<forall>n\<in>set xs. column (ns ! n) = Some c)"

definition cols_ok :: "nat \<Rightarrow> nat set \<Rightarrow> node list \<Rightarrow> (nat \<Rightarrow> nat list) \<Rightarrow> bool" where
  "cols_ok nc DN ns V \<longleftrightarrow> (\<forall>c<nc. vring ns c (V c) \<and> set (V c) \<subseteq> DN)"

text \<open>Two heaps that agree on the fields that no \<^verbatim>\<open>cover\<close> of a node changes.\<close>

definition same_rows :: "node list \<Rightarrow> node list \<Rightarrow> bool" where
  "same_rows ns ns' \<longleftrightarrow> length ns' = length ns
     \<and> (\<forall>i. left (ns' ! i) = left (ns ! i) \<and> right (ns' ! i) = right (ns ! i)
            \<and> column (ns' ! i) = column (ns ! i) \<and> rownum (ns' ! i) = rownum (ns ! i))"

lemma same_rows_refl [simp]: "same_rows ns ns"
  by (simp add: same_rows_def)

lemma same_rows_trans: "same_rows a b \<Longrightarrow> same_rows b c \<Longrightarrow> same_rows a c"
  by (simp add: same_rows_def)

lemma same_rows_static: "same_rows ns ns' \<Longrightarrow> static nc DN row ns \<Longrightarrow> static nc DN row ns'"
proof -
  assume a: "same_rows ns ns'" and s: "static nc DN row ns"
  have e: "Rt ns' = Rt ns" "Lf ns' = Lf ns" "(\<lambda>m. column (ns' ! m)) = (\<lambda>m. column (ns ! m))"
    "length ns' = length ns"
    using a by (auto simp: same_rows_def Rt_def Lf_def)
  have c: "\<And>m. column (ns' ! m) = column (ns ! m)" using a by (simp add: same_rows_def)
  show ?thesis using s unfolding static_def e c .
qed

lemma distinct_length_bound:
  assumes "distinct xs" "\<forall>x\<in>set xs. x < N"
  shows "length xs \<le> N"
proof -
  have "card (set xs) \<le> card {..<N}"
    by (rule card_mono) (use assms(2) in auto)
  then show ?thesis using assms(1) by (simp add: distinct_card)
qed

lemma unlink_step:
  assumes st: "static nc DN row ns" and co: "cols_ok nc DN ns W" and c: "c < nc"
    and m: "m \<in> set (W c)"
  shows "\<exists>u d. vlinked ns m u d c"
    and "same_rows ns (unlink_v m ns)"
    and "cols_ok nc DN (unlink_v m ns) (\<lambda>x. filter (\<lambda>n. n \<noteq> m) (W x))"
proof -
  have vr: "vring ns c (W c)" and sub: "set (W c) \<subseteq> DN" using co c by (auto simp: cols_ok_def)
  have dr: "dring (Dn ns) (Up ns) c (W c)" and cnt: "count (ns ! c) = length (W c)"
    and col: "\<forall>n\<in>set (W c). column (ns ! n) = Some c"
    using vr by (simp_all add: vring_def)
  have len: "nc < length ns" "length ns < 2 ^ 64" and dn: "\<And>n. n \<in> DN \<Longrightarrow> nc < n \<and> n < length ns"
    using static_len [OF st] staticD(1,2) [OF st] by simp_all
  from split_list [OF m] obtain xs ys where W: "W c = xs @ m # ys" by blast
  define u where "u = last (c # xs)"
  define d where "d = hd (ys @ [c])"
  have dist: "distinct (c # xs @ m # ys)" using dr by (simp add: dring_def W)
  note nb = dring_neighbours [OF dr [unfolded W], folded u_def d_def]
  have Wb: "\<And>y. y \<in> set (W c) \<Longrightarrow> y < length ns" using sub dn by blast
  have "u = c \<or> u \<in> set (W c)" "d = c \<or> d \<in> set (W c)"
    using nb(7,8) by (auto simp: W)
  then have ub: "u < length ns" "d < length ns"
    using Wb c len by auto
  have mb: "m < length ns" "nc < m" using dn sub m by auto
  have cl: "c < length ns" "c \<noteq> m" using c len mb by auto
  have "distinct (W c)" using dist by (simp add: W)
  then have "length (W c) \<le> length ns"
    by (rule distinct_length_bound) (use Wb in blast)
  then have cb: "0 < count (ns ! c)" "count (ns ! c) < 2 ^ 64"
    using cnt len by (simp_all add: W)
  have "column (ns ! m) = Some c" using col m by blast
  then have vl: "vlinked ns m u d c"
    unfolding vlinked_def using nb(1-6) mb ub cl cb by (simp add: Dn_def Up_def)
  then show "\<exists>u d. vlinked ns m u d c" by blast
  note f = unlink_v_nth [OF vl]
  show "same_rows ns (unlink_v m ns)" by (simp add: same_rows_def f(1,5,6,7,8))
  have "Dn (unlink_v m ns) i = ((Dn ns)(u := Some d)) i" for i by (simp add: Dn_def f(2))
  then have Dn': "Dn (unlink_v m ns) = (Dn ns)(u := Some d)" by (rule ext)
  have "Up (unlink_v m ns) i = ((Up ns)(d := Some u)) i" for i by (simp add: Up_def f(3))
  then have Up': "Up (unlink_v m ns) = (Up ns)(d := Some u)" by (rule ext)
  have "filter (\<lambda>n. n \<noteq> m) xs = xs" "filter (\<lambda>n. n \<noteq> m) ys = ys"
    using dist by (auto intro!: filter_True)
  then have rmv: "filter (\<lambda>n. n \<noteq> m) (W c) = xs @ ys"
    by (simp add: W)
  show "cols_ok nc DN (unlink_v m ns) (\<lambda>x. filter (\<lambda>n. n \<noteq> m) (W x))"
    unfolding cols_ok_def
  proof (intro allI impI conjI)
    fix x assume x: "x < nc"
    have vx: "vring ns x (W x)" and subx: "set (W x) \<subseteq> DN"
      using co x by (auto simp: cols_ok_def)
    show "set (filter (\<lambda>n. n \<noteq> m) (W x)) \<subseteq> DN" using subx by auto
    show "vring (unlink_v m ns) x (filter (\<lambda>n. n \<noteq> m) (W x))"
    proof (cases "x = c")
      case True
      have "dring (Dn (unlink_v m ns)) (Up (unlink_v m ns)) c (xs @ ys)"
        unfolding Dn' Up' u_def d_def by (rule dring_unlink [OF dr [unfolded W]])
      moreover have "count (unlink_v m ns ! c) = length (xs @ ys)"
        using cnt by (simp add: f(4) W)
      moreover have "\<forall>n\<in>set (xs @ ys). column (unlink_v m ns ! n) = Some c"
        using col by (simp add: f(7) W)
      ultimately show ?thesis unfolding True rmv vring_def by simp
    next
      case False
      have colx: "\<forall>n\<in>set (W x). column (ns ! n) = Some x" using vx by (simp add: vring_def)
      have mx: "m \<notin> set (W x)" using colx col m False by auto
      then have id: "filter (\<lambda>n. n \<noteq> m) (W x) = W x" by (auto intro!: filter_True)
      have disj: "\<And>y. y \<in> set (x # W x) \<Longrightarrow> y \<notin> set (c # W c)"
      proof -
        fix y assume "y \<in> set (x # W x)"
        then consider "y = x" | "y \<in> set (W x)" by auto
        then show "y \<notin> set (c # W c)"
        proof cases
          case 1
          have "x \<notin> set (W c)" using dn sub x by force
          then show ?thesis using False 1 by simp
        next
          case 2
          then have "column (ns ! y) = Some x" "nc < y" using colx subx dn by auto
          then have "y \<noteq> c" "y \<notin> set (W c)" using col False c by auto
          then show ?thesis by simp
        qed
      qed
      have "u \<in> set (c # W c)" "d \<in> set (c # W c)" using nb(7,8) by (auto simp: W)
      then have ud: "\<And>y. y \<in> set (x # W x) \<Longrightarrow> y \<noteq> u \<and> y \<noteq> d" using disj by blast
      have "dring (Dn (unlink_v m ns)) (Up (unlink_v m ns)) x (W x)
          = dring (Dn ns) (Up ns) x (W x)"
      proof (rule dring_cong)
        fix y assume "y \<in> set (x # W x)"
        then have "y \<noteq> u \<and> y \<noteq> d" by (rule ud)
        then show "Dn (unlink_v m ns) y = Dn ns y \<and> Up (unlink_v m ns) y = Up ns y"
          by (simp add: Dn' Up')
      qed
      moreover have "count (unlink_v m ns ! x) = count (ns ! x)" using False by (simp add: f(4))
      moreover have "\<forall>n\<in>set (W x). column (unlink_v m ns ! n) = Some x"
        using colx by (simp add: f(7))
      ultimately show ?thesis using vx unfolding id vring_def by simp
    qed
  qed
qed


lemma chain_agree:
  assumes "chain nx a xs b" "chain nx' a xs b" "distinct xs" "x \<in> set xs"
  shows "nx x = nx' x"
  using assms
proof (induction xs arbitrary: a)
  case Nil
  then show ?case by simp
next
  case (Cons y ys)
  show ?case
  proof (cases "x = y")
    case True
    have "nx y = Some (hd (ys @ [b]))" "nx' y = Some (hd (ys @ [b]))"
      using Cons.prems(1,2) chain_hd [of nx y ys b] chain_hd [of nx' y ys b] by auto
    then show ?thesis using True by simp
  next
    case False
    then show ?thesis using Cons.IH [of y] Cons.prems by auto
  qed
qed

lemma nth_notin_take:
  assumes "distinct xs" "j < length xs"
  shows "xs ! j \<notin> set (take j xs)"
proof
  assume "xs ! j \<in> set (take j xs)"
  then obtain i where i: "i < length (take j xs)" "take j xs ! i = xs ! j"
    by (auto simp: in_set_conv_nth)
  then have "i < j" "xs ! i = xs ! j" using assms(2) by simp_all
  then show False using assms nth_eq_iff_index_eq [OF assms(1), of i j] by simp
qed

lemma others_props:
  assumes "static nc DN row h" "r \<in> DN"
  shows "distinct (others row r)" "r \<notin> set (others row r)"
    "set (others row r) = set (row r) - {r}" "set (others row r) \<subseteq> DN"
    "chain (Rt h) r (others row r) r" "chain (Lf h) r (rev (others row r)) r"
    "r < length h"
proof -
  note d = staticD [OF assms]
  show 1: "distinct (others row r)" and 2: "set (others row r) = set (row r) - {r}"
    unfolding others_def using rot_at_props [OF d(5) d(3)] by blast+
  show "r \<notin> set (others row r)" unfolding 2 by blast
  show "set (others row r) \<subseteq> DN" unfolding 2 using d(4) by blast
  show "chain (Rt h) r (others row r) r" by (rule d(9))
  show "chain (Lf h) r (rev (others row r)) r" by (rule d(10))
  show "r < length h" by (rule d(2))
qed

text \<open>
  One row of \<^verbatim>\<open>cover\<close>, and the same row of \<^verbatim>\<open>uncover\<close>: the inner loop unlinks the
  other nodes of the row of \<open>r\<close>, and the inner loop of \<^verbatim>\<open>uncover\<close> restores the arena.
\<close>

lemma row_bracket:
  assumes st: "static nc DN row h" and co: "cols_ok nc DN h W" and r: "r \<in> DN"
    and live: "\<forall>m\<in>set (others row r). \<exists>c'<nc. m \<in> set (W c')"
  defines "h1 \<equiv> fold unlink_v (others row r) h"
  shows "cover_row (h, Some r) = ok (h1, down (h1 ! r))"
    and "uncover_row (h1, Some r) = ok (h, up (h ! r))"
    and "same_rows h h1"
    and "cols_ok nc DN h1 (\<lambda>x. filter (\<lambda>n. n \<notin> set (others row r)) (W x))"
proof -
  define xs where "xs = others row r"
  note op = others_props [OF st r, folded xs_def]
  define Q where "Q j s \<longleftrightarrow> same_rows h s
      \<and> cols_ok nc DN s (\<lambda>x. filter (\<lambda>n. n \<notin> set (take j xs)) (W x))" for j s
  have Q0: "Q 0 h" using co by (simp add: Q_def)
  have step: "\<exists>u d c'. vlinked s (xs ! j) u d c' \<and> Q (Suc j) (unlink_v (xs ! j) s)"
    if j: "j < length xs" and q: "Q j s" for j s
  proof -
    define m where "m = xs ! j"
    have mx: "m \<in> set xs" using j by (simp add: m_def)
    then obtain c' where c': "c' < nc" "m \<in> set (W c')" using live xs_def by blast
    have "m \<notin> set (take j xs)"
      unfolding m_def by (rule nth_notin_take [OF op(1) j])
    then have mW: "m \<in> set (filter (\<lambda>n. n \<notin> set (take j xs)) (W c'))" using c' by simp
    have sr: "same_rows h s" and cs: "cols_ok nc DN s (\<lambda>x. filter (\<lambda>n. n \<notin> set (take j xs)) (W x))"
      using q by (simp_all add: Q_def)
    have sts: "static nc DN row s" by (rule same_rows_static [OF sr st])
    note us = unlink_step [OF sts cs c'(1) mW]
    have tk: "set (take (Suc j) xs) = insert m (set (take j xs))"
      using j by (simp add: take_Suc_conv_app_nth m_def)
    have "(\<lambda>x. filter (\<lambda>n. n \<noteq> m) (filter (\<lambda>n. n \<notin> set (take j xs)) (W x)))
        = (\<lambda>x. filter (\<lambda>n. n \<notin> set (take (Suc j) xs)) (W x))"
      by (auto simp: tk fun_eq_iff intro!: filter_cong)
    then have "cols_ok nc DN (unlink_v m s) (\<lambda>x. filter (\<lambda>n. n \<notin> set (take (Suc j) xs)) (W x))"
      using us(3) by simp
    moreover have "same_rows h (unlink_v m s)" by (rule same_rows_trans [OF sr us(2)])
    ultimately show ?thesis using us(1) by (auto simp: Q_def m_def)
  qed
  have Qk: "Q k (fold unlink_v (take k xs) h)" if "k \<le> length xs" for k
  proof (rule fold_invariant [where Q = Q and f = unlink_v and xs = xs])
    show "Q 0 h" by fact
    show "k \<le> length xs" by fact
    show "\<And>i s. i < length xs \<Longrightarrow> Q i s \<Longrightarrow> Q (Suc i) (unlink_v (xs ! i) s)"
      using step by blast
  qed
  have sr1: "same_rows h h1" and co1: "cols_ok nc DN h1 (\<lambda>x. filter (\<lambda>n. n \<notin> set xs) (W x))"
    using Qk [of "length xs"] by (simp_all add: Q_def h1_def xs_def)
  show "same_rows h h1" by fact
  show "cols_ok nc DN h1 (\<lambda>x. filter (\<lambda>n. n \<notin> set (others row r)) (W x))"
    using co1 by (simp add: xs_def)
  have len1: "length h1 = length h" using sr1 by (simp add: same_rows_def)
  have fwd: "while_loop (\<lambda>(st, p). p \<noteq> Some r) cover_node (h, Rt h r)
      = while_loop (\<lambda>(st, p). p \<noteq> Some r) cover_node (fold unlink_v xs h, Some r)
      \<and> Q (length xs) (fold unlink_v xs h)"
  proof (rule while_loop_fold [where Q = Q and nx = "Rt h" and f = unlink_v and xs = xs
        and a = r and b = r and e = r])
    show "chain (Rt h) r xs r" by (rule op(5))
    show "r \<notin> set xs" by (rule op(2))
    show "Q 0 h" by fact
    fix i s assume i: "i < length xs" and q: "Q i s"
    from step [OF i q] obtain u d c' where
      v: "vlinked s (xs ! i) u d c'" and q': "Q (Suc i) (unlink_v (xs ! i) s)" by blast
    have "right (s ! (xs ! i)) = Rt h (xs ! i)"
      using q by (simp add: Q_def same_rows_def Rt_def)
    then show "cover_node (s, Some (xs ! i)) = ok (unlink_v (xs ! i) s, Rt h (xs ! i))
        \<and> Q (Suc i) (unlink_v (xs ! i) s)"
      using cover_node_ok [OF v] q' by simp
  qed
  have "while_loop (\<lambda>(st, p). p \<noteq> Some r) cover_node (h, right (h ! r)) = ok (h1, Some r)"
    using fwd by (simp add: while_loop_exit h1_def xs_def Rt_def)
  then show "cover_row (h, Some r) = ok (h1, down (h1 ! r))"
    using op(7) len1 by (simp add: cover_row_def)
  have bwd: "while_loop (\<lambda>(st, p). p \<noteq> Some r) uncover_node (fold unlink_v xs h, Lf h r)
      = while_loop (\<lambda>(st, p). p \<noteq> Some r) uncover_node (h, Some r)"
  proof (rule while_loop_unfold [where pv = "Lf h" and f = unlink_v and xs = xs
        and a = r and b = r and e = r])
    show "chain (Lf h) r (rev xs) r" by (rule op(6))
    show "r \<notin> set xs" by (rule op(2))
    fix k assume k: "k < length xs"
    define s where "s = fold unlink_v (take k xs) h"
    have q: "Q k s" unfolding s_def using Qk [of k] k by simp
    from step [OF k q] obtain u d c' where v: "vlinked s (xs ! k) u d c'" by blast
    have "left (s ! (xs ! k)) = Lf h (xs ! k)"
      using q by (simp add: Q_def same_rows_def Lf_def)
    moreover have "fold unlink_v (take (Suc k) xs) h = unlink_v (xs ! k) s"
      using k by (simp add: take_Suc_conv_app_nth s_def)
    ultimately show "uncover_node (fold unlink_v (take (Suc k) xs) h, Some (xs ! k))
        = ok (fold unlink_v (take k xs) h, Lf h (xs ! k))"
      using uncover_node_ok [OF v] by (simp add: s_def)
  qed
  have "left (h1 ! r) = Lf h r" using sr1 by (simp add: same_rows_def Lf_def)
  then have "while_loop (\<lambda>(st, p). p \<noteq> Some r) uncover_node (h1, left (h1 ! r)) = ok (h, Some r)"
    using bwd by (simp add: while_loop_exit h1_def xs_def)
  then show "uncover_row (h1, Some r) = ok (h, up (h ! r))"
    using op(7) len1 by (simp add: uncover_row_def)
qed


text \<open>The nodes that \<^verbatim>\<open>cover\<close> unlinks for the rows \<open>rs\<close> of the covered column.\<close>

definition rowset :: "(nat \<Rightarrow> nat list) \<Rightarrow> nat list \<Rightarrow> nat set" where
  "rowset row rs = (\<Union>r\<in>set rs. set (others row r))"

definition cover_rows :: "(nat \<Rightarrow> nat list) \<Rightarrow> nat list \<Rightarrow> node list \<Rightarrow> node list" where
  "cover_rows row rs h = fold (\<lambda>r. fold unlink_v (others row r)) rs h"

lemma rowset_take_Suc:
  "i < length rs \<Longrightarrow> rowset row (take (Suc i) rs) = rowset row (take i rs) \<union> set (others row (rs ! i))"
  by (auto simp: rowset_def take_Suc_conv_app_nth)

lemma vringD:
  assumes "cols_ok nc DN h V" "c < nc"
  shows "distinct (c # V c)" "chain (Dn h) c (V c) c" "chain (Up h) c (rev (V c)) c"
    "count (h ! c) = length (V c)" "\<forall>n\<in>set (V c). column (h ! n) = Some c" "set (V c) \<subseteq> DN"
  using assms by (simp_all add: cols_ok_def vring_def dring_def)

text \<open>Two nodes of one column lie in different rows.\<close>

lemma same_column_rows:
  assumes st: "static nc DN row h" and co: "cols_ok nc DN h V" and c: "c < nc"
    and r: "r \<in> set (V c)" and r': "r' \<in> set (V c)" and m: "m \<in> set (row r)" "m \<in> set (row r')"
  shows "r = r'"
proof -
  note v = vringD [OF co c]
  have dn: "r \<in> DN" "r' \<in> DN" using v(6) r r' by auto
  have e: "row m = row r" by (rule bspec [OF staticD(6) [OF st dn(1)] m(1)])
  have e': "row m = row r'" by (rule bspec [OF staticD(6) [OF st dn(2)] m(2)])
  have 1: "r' \<in> set (row r)" using staticD(3) [OF st dn(2)] unfolding e [symmetric] e' .
  have 2: "r \<in> set (row r)" by (rule staticD(3) [OF st dn(1)])
  have "column (h ! r) = Some c" "column (h ! r') = Some c"
    using bspec [OF v(5) r] bspec [OF v(5) r'] by blast+
  then have 3: "column (h ! r) = column (h ! r')" by simp
  show ?thesis by (rule inj_onD [OF staticD(8) [OF st dn(1)] 3 2 1])
qed

lemma column_not_in_rowset:
  assumes st: "static nc DN row h" and co: "cols_ok nc DN h V" and c: "c < nc"
    and rs: "set rs \<subseteq> set (V c)"
  shows "filter (\<lambda>n. n \<notin> rowset row rs) (V c) = V c"
proof (rule filter_True, rule ballI)
  fix n assume n: "n \<in> set (V c)"
  show "n \<notin> rowset row rs"
  proof
    assume "n \<in> rowset row rs"
    then obtain r where r: "r \<in> set rs" "n \<in> set (others row r)" by (auto simp: rowset_def)
    have rV: "r \<in> set (V c)" using r(1) rs by blast
    then have rd: "r \<in> DN" using vringD(6) [OF co c] by blast
    have nd: "n \<in> DN" using n vringD(6) [OF co c] by blast
    have "n \<in> set (row r)" "n \<noteq> r" using others_props(3) [OF st rd] r(2) by auto
    moreover have "n \<in> set (row n)" using staticD(3) [OF st nd] .
    ultimately show False using same_column_rows [OF st co c n rV] by blast
  qed
qed

text \<open>
  The loop of \<^verbatim>\<open>cover\<close> over the rows of the column \<open>c\<close>, and the loop of \<^verbatim>\<open>uncover\<close>
  that undoes it.
\<close>

lemma col_bracket:
  assumes st: "static nc DN row h" and co: "cols_ok nc DN h V" and c: "c < nc"
    and live: "\<forall>r\<in>set (V c). \<forall>m\<in>set (others row r). \<exists>c'<nc. m \<in> set (V c')"
  defines "H \<equiv> cover_rows row (V c) h"
  shows "while_loop (\<lambda>(st, p). p \<noteq> Some c) cover_row (h, down (h ! c)) = ok (H, Some c)"
    and "while_loop (\<lambda>(st, p). p \<noteq> Some c) uncover_row (H, up (H ! c)) = ok (h, Some c)"
    and "same_rows h H"
    and "cols_ok nc DN H (\<lambda>x. filter (\<lambda>n. n \<notin> rowset row (V c)) (V x))"
proof -
  define rs where "rs = V c"
  define f where "f = (\<lambda>r. fold unlink_v (others row r))"
  define Wi where "Wi i = (\<lambda>x. filter (\<lambda>n. n \<notin> rowset row (take i rs)) (V x))" for i
  define Q where "Q j s \<longleftrightarrow> same_rows h s \<and> cols_ok nc DN s (Wi j)" for j s
  note v = vringD [OF co c, folded rs_def]
  have crs: "c \<notin> set rs" "distinct rs" using v(1) by auto
  have Q0: "Q 0 h" using co by (simp add: Q_def Wi_def rowset_def)
  have Wc: "Wi i c = rs" for i
    unfolding Wi_def rs_def
    by (rule column_not_in_rowset [OF st co c]) (auto simp: rs_def dest: in_set_takeD)
  have step: "cover_row (s, Some (rs ! j)) = ok (f (rs ! j) s, Dn h (rs ! j))
      \<and> uncover_row (f (rs ! j) s, Some (rs ! j)) = ok (s, Up h (rs ! j))
      \<and> Q (Suc j) (f (rs ! j) s)"
    if j: "j < length rs" and q: "Q j s" for j s
  proof -
    define r where "r = rs ! j"
    have rV: "r \<in> set (V c)" using j by (simp add: r_def rs_def)
    then have rd: "r \<in> DN" using v(6) by (auto simp: rs_def)
    have sr: "same_rows h s" and cs: "cols_ok nc DN s (Wi j)" using q by (simp_all add: Q_def)
    have sts: "static nc DN row s" by (rule same_rows_static [OF sr st])
    have lv: "\<forall>m\<in>set (others row r). \<exists>c'<nc. m \<in> set (Wi j c')"
    proof
      fix m assume m: "m \<in> set (others row r)"
      then obtain c' where c': "c' < nc" "m \<in> set (V c')" using live rV by blast
      have "m \<notin> rowset row (take j rs)"
      proof
        assume "m \<in> rowset row (take j rs)"
        then obtain r' where r': "r' \<in> set (take j rs)" "m \<in> set (others row r')"
          by (auto simp: rowset_def)
        have r'V: "r' \<in> set (V c)" using r'(1) by (auto simp: rs_def dest: in_set_takeD)
        then have r'd: "r' \<in> DN" using v(6) by (auto simp: rs_def)
        have "m \<in> set (row r)" "m \<in> set (row r')"
          using others_props(3) [OF st rd] others_props(3) [OF st r'd] m r'(2) by auto
        then have "r = r'" by (rule same_column_rows [OF st co c rV r'V])
        then show False using nth_notin_take [OF crs(2) j] r'(1) by (simp add: r_def)
      qed
      then show "\<exists>c'<nc. m \<in> set (Wi j c')" using c' by (auto simp: Wi_def)
    qed
    have fr: "fold unlink_v (others row r) s = f r s" by (simp add: f_def)
    note rb = row_bracket [OF sts cs rd lv, unfolded fr]
    have "(\<lambda>x. filter (\<lambda>n. n \<notin> set (others row r)) (Wi j x)) = Wi (Suc j)"
      using j by (auto simp: Wi_def fun_eq_iff rowset_take_Suc r_def intro!: filter_cong)
    then have cs': "cols_ok nc DN (f r s) (Wi (Suc j))" using rb(4) by simp
    have sr': "same_rows h (f r s)" by (rule same_rows_trans [OF sr rb(3)])
    have rrs: "r \<in> set rs" using j by (simp add: r_def)
    have "Dn (f r s) r = Dn h r"
      by (rule chain_agree [OF vringD(2) [OF cs' c, unfolded Wc] v(2) crs(2) rrs])
    moreover have "Up s r = Up h r"
      by (rule chain_agree [OF vringD(3) [OF cs c, unfolded Wc] v(3)]) (use crs(2) rrs in auto)
    ultimately show ?thesis
      using rb(1,2) cs' sr' by (simp add: Q_def r_def Dn_def Up_def)
  qed
  have Qk: "Q k (fold f (take k rs) h)" if "k \<le> length rs" for k
  proof (rule fold_invariant [where Q = Q and f = f and xs = rs])
    show "Q 0 h" by fact
    show "k \<le> length rs" by fact
    show "\<And>i s. i < length rs \<Longrightarrow> Q i s \<Longrightarrow> Q (Suc i) (f (rs ! i) s)"
      using step by blast
  qed
  have HQ: "Q (length rs) H" using Qk [of "length rs"] by (simp add: H_def cover_rows_def f_def rs_def)
  show "same_rows h H" using HQ by (simp add: Q_def)
  show "cols_ok nc DN H (\<lambda>x. filter (\<lambda>n. n \<notin> rowset row (V c)) (V x))"
    using HQ by (simp add: Q_def Wi_def rs_def)
  have "while_loop (\<lambda>(st, p). p \<noteq> Some c) cover_row (h, Dn h c)
      = while_loop (\<lambda>(st, p). p \<noteq> Some c) cover_row (fold f rs h, Some c)
      \<and> Q (length rs) (fold f rs h)"
  proof (rule while_loop_fold [where Q = Q and nx = "Dn h" and f = f and xs = rs
        and a = c and b = c and e = c])
    show "chain (Dn h) c rs c" by (rule v(2))
    show "c \<notin> set rs" by (rule crs(1))
    show "Q 0 h" by fact
    show "\<And>i s. i < length rs \<Longrightarrow> Q i s \<Longrightarrow>
        cover_row (s, Some (rs ! i)) = ok (f (rs ! i) s, Dn h (rs ! i)) \<and> Q (Suc i) (f (rs ! i) s)"
      using step by blast
  qed
  then show "while_loop (\<lambda>(st, p). p \<noteq> Some c) cover_row (h, down (h ! c)) = ok (H, Some c)"
    by (simp add: while_loop_exit H_def cover_rows_def f_def rs_def Dn_def)
  have "while_loop (\<lambda>(st, p). p \<noteq> Some c) uncover_row (fold f rs h, Up h c)
      = while_loop (\<lambda>(st, p). p \<noteq> Some c) uncover_row (h, Some c)"
  proof (rule while_loop_unfold [where pv = "Up h" and f = f and xs = rs
        and a = c and b = c and e = c])
    show "chain (Up h) c (rev rs) c" by (rule v(3))
    show "c \<notin> set rs" by (rule crs(1))
    fix k assume k: "k < length rs"
    have q: "Q k (fold f (take k rs) h)" using Qk [of k] k by simp
    have "fold f (take (Suc k) rs) h = f (rs ! k) (fold f (take k rs) h)"
      using k by (simp add: take_Suc_conv_app_nth)
    then show "uncover_row (fold f (take (Suc k) rs) h, Some (rs ! k))
        = ok (fold f (take k rs) h, Up h (rs ! k))"
      using step [OF k q] by simp
  qed
  moreover have "Up H c = Up h c"
  proof -
    have "cols_ok nc DN H (Wi (length rs))" using HQ by (simp add: Q_def)
    from vringD(3) [OF this c, unfolded Wc] v(3)
    show ?thesis using chain_hd [of "Up H" c "rev rs" c] chain_hd [of "Up h" c "rev rs" c] by simp
  qed
  ultimately
  show "while_loop (\<lambda>(st, p). p \<noteq> Some c) uncover_row (H, up (H ! c)) = ok (h, Some c)"
    by (simp add: while_loop_exit H_def cover_rows_def f_def rs_def Up_def)
qed


section \<open>\<^verbatim>\<open>cover\<close> and \<^verbatim>\<open>uncover\<close>\<close>

text \<open>The first two statements of \<^verbatim>\<open>cover\<close>, and the last two of \<^verbatim>\<open>uncover\<close>.\<close>

definition unlink_h :: "nat \<Rightarrow> node list \<Rightarrow> node list" where
  "unlink_h c ns =
     (let ns1 = upd (the (left (ns ! c))) (\<lambda>l. l\<lparr>right := right (ns ! c)\<rparr>) ns
      in upd (the (right (ns1 ! c))) (\<lambda>r. r\<lparr>left := left (ns1 ! c)\<rparr>) ns1)"

text \<open>
  The invariant of the search: the rows and columns as above, the ring \<open>hs\<close> of the
  headers of the live columns, and every node of a live row lies in a live column.
\<close>

definition ginv ::
  "nat \<Rightarrow> nat set \<Rightarrow> (nat \<Rightarrow> nat list) \<Rightarrow> node list \<Rightarrow> (nat \<Rightarrow> nat list) \<Rightarrow> nat list \<Rightarrow> bool" where
  "ginv nc DN row ns V hs \<longleftrightarrow> static nc DN row ns \<and> cols_ok nc DN ns V
     \<and> dring (Rt ns) (Lf ns) nc hs \<and> (\<forall>c\<in>set hs. c < nc)
     \<and> (\<forall>c\<in>set hs. \<forall>n\<in>set (V c). \<forall>m\<in>set (row n). \<exists>c'\<in>set hs. m \<in> set (V c'))"

lemma ginvD:
  assumes "ginv nc DN row ns V hs"
  shows "static nc DN row ns" "cols_ok nc DN ns V" "dring (Rt ns) (Lf ns) nc hs"
    "\<And>c. c \<in> set hs \<Longrightarrow> c < nc"
    "\<And>c n m. c \<in> set hs \<Longrightarrow> n \<in> set (V c) \<Longrightarrow> m \<in> set (row n) \<Longrightarrow> \<exists>c'\<in>set hs. m \<in> set (V c')"
proof -
  have *: "static nc DN row ns \<and> cols_ok nc DN ns V \<and> dring (Rt ns) (Lf ns) nc hs
     \<and> (\<forall>c\<in>set hs. c < nc)
     \<and> (\<forall>c\<in>set hs. \<forall>n\<in>set (V c). \<forall>m\<in>set (row n). \<exists>c'\<in>set hs. m \<in> set (V c'))"
    using assms unfolding ginv_def .
  show "static nc DN row ns" using * by (elim conjE)
  show "cols_ok nc DN ns V" using * by (elim conjE)
  show "dring (Rt ns) (Lf ns) nc hs" using * by (elim conjE)
  have a: "\<forall>c\<in>set hs. c < nc" using * by (elim conjE)
  have b: "\<forall>c\<in>set hs. \<forall>n\<in>set (V c). \<forall>m\<in>set (row n). \<exists>c'\<in>set hs. m \<in> set (V c')"
    using * by (elim conjE)
  show "\<And>c. c \<in> set hs \<Longrightarrow> c < nc" using a by blast
  show "\<And>c n m. c \<in> set hs \<Longrightarrow> n \<in> set (V c) \<Longrightarrow> m \<in> set (row n)
      \<Longrightarrow> \<exists>c'\<in>set hs. m \<in> set (V c')"
    using b by blast
qed

text \<open>Heaps that differ only in the \<^verbatim>\<open>left\<close> and \<^verbatim>\<open>right\<close> pointers of headers.\<close>

definition same_cols :: "nat \<Rightarrow> node list \<Rightarrow> node list \<Rightarrow> bool" where
  "same_cols nc ns ns' \<longleftrightarrow> length ns' = length ns
     \<and> (\<forall>i. up (ns' ! i) = up (ns ! i) \<and> down (ns' ! i) = down (ns ! i)
            \<and> column (ns' ! i) = column (ns ! i) \<and> count (ns' ! i) = count (ns ! i)
            \<and> (nc < i \<longrightarrow> left (ns' ! i) = left (ns ! i) \<and> right (ns' ! i) = right (ns ! i)))"

lemma same_cols_static:
  assumes a: "same_cols nc ns ns'" and s: "static nc DN row ns"
  shows "static nc DN row ns'"
proof -
  have c: "\<And>m. column (ns' ! m) = column (ns ! m)" "length ns' = length ns"
    using a by (simp_all add: same_cols_def)
  have lr: "\<And>i. nc < i \<Longrightarrow> Rt ns' i = Rt ns i \<and> Lf ns' i = Lf ns i"
    using a by (simp add: same_cols_def Rt_def Lf_def)
  have ch: "chain (Rt ns') n (others row n) n \<and> chain (Lf ns') n (rev (others row n)) n"
    if n: "n \<in> DN" for n
  proof -
    note o = others_props [OF s n]
    have gt: "\<And>x. x \<in> set (n # others row n) \<Longrightarrow> nc < x"
      using staticD(1) [OF s] o(4) n by auto
    have "chain (Rt ns') n (others row n) n = chain (Rt ns) n (others row n) n"
      by (rule chain_cong) (use gt lr in blast)
    moreover have "chain (Lf ns') n (rev (others row n)) n = chain (Lf ns) n (rev (others row n)) n"
      by (rule chain_cong) (use gt lr in auto)
    ultimately show ?thesis using o(5,6) by simp
  qed
  have "nc < n \<and> n < length ns \<and> n \<in> set (row n) \<and> set (row n) \<subseteq> DN
           \<and> distinct (row n) \<and> (\<forall>m\<in>set (row n). row m = row n)
           \<and> (\<exists>c<nc. column (ns ! n) = Some c)
           \<and> inj_on (\<lambda>m. column (ns ! m)) (set (row n))
           \<and> chain (Rt ns') n (others row n) n \<and> chain (Lf ns') n (rev (others row n)) n"
    if n: "n \<in> DN" for n
    using staticD(1-8) [OF s n] ch [OF n, THEN conjunct1] ch [OF n, THEN conjunct2]
    by (intro conjI) assumption+
  note * = this
  have l: "nc < length ns" "length ns < 2 ^ 64" using static_len [OF s] by blast+
  show ?thesis
    unfolding static_def c
    apply (rule conjI [OF l(1)])
    apply (rule conjI [OF l(2)])
    apply (rule ballI)
    apply (erule *)
    done
qed

lemma same_cols_cols_ok:
  assumes a: "same_cols nc ns ns'" and s: "cols_ok nc DN ns V"
  shows "cols_ok nc DN ns' V"
proof -
  have e: "Dn ns' = Dn ns" "Up ns' = Up ns" "\<And>m. column (ns' ! m) = column (ns ! m)"
    "\<And>m. count (ns' ! m) = count (ns ! m)"
    using a by (auto simp: same_cols_def Dn_def Up_def)
  show ?thesis using s unfolding cols_ok_def vring_def e .
qed


section \<open>The graph that \<^verbatim>\<open>solver_init_graph\<close> builds\<close>

lemma remove1_split: "c \<notin> set xs \<Longrightarrow> remove1 c (xs @ c # ys) = xs @ ys"
  by (induction xs) auto

lemma assign_ok_iff:
  "assign ns p f = ok ns' \<longleftrightarrow> (\<exists>i. p = Some i \<and> i < length ns \<and> ns' = upd i f ns)"
  by (auto simp: assign_def upd_def split: option.splits)

lemma deref_ok_iff: "deref ns p = ok n \<longleftrightarrow> (\<exists>i. p = Some i \<and> i < length ns \<and> n = ns ! i)"
  by (auto simp: deref_def split: option.splits)

lemma usub_small:
  assumes "b \<le> a" "a < 2 ^ 64"
  shows "usub a b = a - b"
proof -
  define M :: nat where "M = 2 ^ 64"
  have e: "a + M - b = (a - b) + M" using assms(1) by simp
  have "a < M" using assms(2) unfolding M_def .
  then have l: "a - b < M" by (rule less_imp_diff_less)
  show ?thesis unfolding usub_def M_def [symmetric] e using l by simp
qed

lemma usub_wrap:
  assumes "a < b" "b \<le> 2 ^ 64"
  shows "usub a b = a + 2 ^ 64 - b"
proof -
  define M :: nat where "M = 2 ^ 64"
  have "b \<le> M" using assms(2) unfolding M_def .
  then have "a + M - b < M" using assms(1) by arith
  then show ?thesis unfolding usub_def M_def [symmetric] by simp
qed

text \<open>A chain along consecutive indices, upwards and downwards.\<close>

lemma chain_upt:
  assumes "\<And>i. a \<le> i \<Longrightarrow> i < b \<Longrightarrow> nx i = Some (Suc i)" "a < b"
  shows "chain nx a [Suc a..<b] b"
  using assms
proof (induction "b - a" arbitrary: a)
  case 0
  then show ?case by simp
next
  case (Suc d)
  show ?case
  proof (cases "Suc a = b")
    case True
    then show ?thesis using Suc.prems(1) [of a] by simp
  next
    case False
    then have lt: "Suc a < b" using Suc.prems(2) by simp
    have "chain nx (Suc a) [Suc (Suc a)..<b] b"
      by (rule Suc.hyps(1)) (use Suc.hyps(2) Suc.prems lt in auto)
    moreover have "[Suc a..<b] = Suc a # [Suc (Suc a)..<b]" using lt by (simp add: upt_conv_Cons)
    ultimately show ?thesis using Suc.prems(1) [of a] Suc.prems(2) by simp
  qed
qed

lemma chain_rev_upt:
  assumes "\<And>i. i < n \<Longrightarrow> pv (Suc i) = Some i" "pv 0 = Some b"
  shows "chain pv n (rev [0..<n]) b"
  using assms
proof (induction n)
  case 0
  then show ?case by simp
next
  case (Suc n)
  then show ?case by simp
qed

text \<open>The first pass: the ring of the root and the column headers.\<close>

definition headers_linked :: "nat \<Rightarrow> nat \<Rightarrow> node list \<Rightarrow> bool" where
  "headers_linked N nc ns \<longleftrightarrow> length ns = N \<and> nc < N
     \<and> (\<forall>i<N. up (ns ! i) = None \<and> down (ns ! i) = None \<and> column (ns ! i) = None
            \<and> count (ns ! i) = 0 \<and> rownum (ns ! i) = 0)
     \<and> (\<forall>i<N. nc < i \<longrightarrow> ns ! i = null_node)
     \<and> (\<forall>i<nc. right (ns ! i) = Some (Suc i) \<and> left (ns ! Suc i) = Some i)
     \<and> right (ns ! nc) = Some 0 \<and> left (ns ! 0) = Some nc"

lemma headers_linked_ring:
  assumes "headers_linked N nc ns"
  shows "dring (Rt ns) (Lf ns) nc [0..<nc]"
proof -
  have r: "\<And>i. i < nc \<Longrightarrow> Rt ns i = Some (Suc i)" "Rt ns nc = Some 0"
    and l: "\<And>i. i < nc \<Longrightarrow> Lf ns (Suc i) = Some i" "Lf ns 0 = Some nc"
    using assms by (simp_all add: headers_linked_def Rt_def Lf_def)
  have "chain (Rt ns) nc [0..<nc] nc"
  proof (cases "nc = 0")
    case True
    then show ?thesis using r(2) by simp
  next
    case False
    then have "chain (Rt ns) 0 [Suc 0..<nc] nc" by (intro chain_upt) (use r(1) in auto)
    moreover have "[0..<nc] = 0 # [Suc 0..<nc]" using False by (simp add: upt_conv_Cons)
    ultimately show ?thesis using r(2) by simp
  qed
  moreover have "chain (Lf ns) nc (rev [0..<nc]) nc" by (rule chain_rev_upt) (use l in auto)
  ultimately show ?thesis by (simp add: dring_def)
qed


lemma link_headers_length:
  assumes "link_headers nc ns = ok a"
  shows "length a = length ns"
proof (cases "1 \<le> usub nc 1")
  case True
  show ?thesis
  proof (rule for_loop_partial [where I = "\<lambda>j y. length y = length ns",
        OF assms [unfolded link_headers_def] _ True])
    show "length ns = length ns" by simp
    fix j z z'
    assume "length z = length ns"
      and "bnd (assign z (Some j) (\<lambda>n. n\<lparr>left := Some (j - 1)\<rparr>))
             (\<lambda>ns. assign ns (Some j) (\<lambda>n. n\<lparr>right := Some (j + 1)\<rparr>)) = ok z'"
    then show "length z' = length ns" by (auto simp: bnd_ok_iff assign_ok_iff)
  qed
next
  case False
  then show ?thesis using assms by (simp add: link_headers_def)
qed

lemma link_root_columns:
  assumes "link_root nc a = ok b" "length a < 2 ^ 63"
  shows "2 \<le> nc"
proof (rule ccontr)
  assume "\<not> 2 \<le> nc"
  then have nc: "nc < 2" by simp
  define K :: nat where "K = 2 ^ 63"
  have u: "usub nc 2 = nc + 2 ^ 64 - 2" by (rule usub_wrap) (use nc in simp_all)
  have e: "(2::nat) ^ 64 = 2 * K" by (simp add: K_def)
  have k: "2 \<le> K" by (simp add: K_def)
  have "length a < K" using assms(2) unfolding K_def .
  then have "length a < usub nc 2" unfolding u e using k by arith
  then have "node_ptr x (usub nc 2) = fail Mem_Fault" if "length x = length a" for x
    using that by (simp add: node_ptr_def)
  then show False
    using assms(1) by (auto simp: link_root_def Let_def bnd_ok_iff assign_ok_iff)
qed


lemma pow63_less: "n < 2 ^ 63 \<Longrightarrow> (n::nat) < 2 ^ 64"
proof -
  assume "n < 2 ^ 63"
  moreover have "(2::nat) ^ 63 < 2 ^ 64" by simp
  ultimately show ?thesis by (rule less_trans)
qed

lemma first_pass:
  assumes lh: "link_headers nc (replicate N null_node) = ok a" and lr: "link_root nc a = ok b"
    and N: "N < 2 ^ 63" "nc < N"
  shows "2 \<le> nc" and "headers_linked N nc b"
proof -
  have la: "length a = N" using link_headers_length [OF lh] by simp
  show nc2: "2 \<le> nc" by (rule link_root_columns [OF lr]) (use la N in simp)
  have nc64: "nc < 2 ^ 64" by (rule pow63_less [OF less_trans [OF N(2) N(1)]])
  have u1: "usub nc 1 = nc - 1" by (rule usub_small) (use nc2 nc64 in simp_all)
  have u2: "usub nc 2 = nc - 2" by (rule usub_small) (use nc2 nc64 in simp_all)
  define I where "I j y \<longleftrightarrow> length y = N
      \<and> (\<forall>i<N. y ! i = (if 1 \<le> i \<and> i < j
            then null_node\<lparr>left := Some (i - 1), right := Some (i + 1)\<rparr> else null_node))"
    for j and y :: "node list"
  have "I (nc - 1) a"
  proof (rule for_loop_partial [where I = I, OF lh [unfolded link_headers_def u1]])
    show "I 1 (replicate N null_node)" by (simp add: I_def)
    show "1 \<le> nc - 1" using nc2 by simp
    fix j z z'
    assume j: "1 \<le> j" "j < nc - 1" and i: "I j z"
      and b: "bnd (assign z (Some j) (\<lambda>n. n\<lparr>left := Some (j - 1)\<rparr>))
             (\<lambda>ns. assign ns (Some j) (\<lambda>n. n\<lparr>right := Some (j + 1)\<rparr>)) = ok z'"
    have jN: "j < length z" using j N i by (simp add: I_def)
    have z': "z' = upd j (\<lambda>n. n\<lparr>right := Some (j + 1)\<rparr>) (upd j (\<lambda>n. n\<lparr>left := Some (j - 1)\<rparr>) z)"
      using b jN by simp
    show "I (Suc j) z'"
      unfolding I_def
    proof (intro conjI allI impI)
      show "length z' = N" using i by (simp add: z' I_def)
      fix k assume k: "k < N"
      have zk: "z ! k = (if 1 \<le> k \<and> k < j
            then null_node\<lparr>left := Some (k - 1), right := Some (k + 1)\<rparr> else null_node)"
        using i k by (simp add: I_def)
      show "z' ! k = (if 1 \<le> k \<and> k < Suc j
            then null_node\<lparr>left := Some (k - 1), right := Some (k + 1)\<rparr> else null_node)"
      proof (cases "k = j")
        case True
        then show ?thesis using jN j zk by (simp add: z')
      next
        case False
        then show ?thesis using zk by (auto simp: z')
      qed
    qed
  qed
  then have ak: "\<And>i. i < N \<Longrightarrow> a ! i = (if 1 \<le> i \<and> i < nc - 1
            then null_node\<lparr>left := Some (i - 1), right := Some (i + 1)\<rparr> else null_node)"
    by (simp add: I_def)
  define b1 where "b1 = upd 0 (\<lambda>n. n\<lparr>right := Some 1\<rparr>) (upd 0 (\<lambda>n. n\<lparr>left := Some nc\<rparr>)
      (upd nc (\<lambda>n. n\<lparr>right := Some 0\<rparr>) a))"
  define b2 where "b2 = upd nc (\<lambda>n. n\<lparr>left := Some (nc - 1)\<rparr>)
      (upd (nc - 1) (\<lambda>n. n\<lparr>right := Some nc\<rparr>) (upd (nc - 1) (\<lambda>n. n\<lparr>left := Some (nc - 2)\<rparr>) b1))"
  have lb1: "length b1 = N" by (simp add: b1_def la)
  have u1': "usub nc (Suc 0) = nc - 1" using u1 by simp
  have "link_root nc a = ok b2"
    using N nc2 la by (simp add: link_root_def Let_def node_ptr_def u1' u2 b1_def b2_def)
  then have b: "b = b2" using lr by simp
  have n1: "b1 ! i = (if i = 0 then (a ! 0)\<lparr>left := Some nc, right := Some 1\<rparr>
      else if i = nc then (a ! nc)\<lparr>right := Some 0\<rparr> else a ! i)" for i
    using N nc2 la by (simp add: b1_def)
  have n2: "b2 ! i = (if i = nc then (b1 ! nc)\<lparr>left := Some (nc - 1)\<rparr>
      else if i = nc - 1 then (b1 ! (nc - 1))\<lparr>left := Some (nc - 2), right := Some nc\<rparr>
      else b1 ! i)" for i
    using N nc2 lb1 by (simp add: b2_def)
  show "headers_linked N nc b"
    unfolding headers_linked_def b
  proof (intro conjI allI impI)
    show "length b2 = N" by (simp add: b2_def lb1)
    show "nc < N" by fact
    show "right (b2 ! nc) = Some 0" using nc2 N by (simp add: n2 n1)
    show "left (b2 ! 0) = Some nc" using nc2 N by (simp add: n2 n1)
  next
    fix i assume "i < N"
    then show "up (b2 ! i) = None" "down (b2 ! i) = None" "column (b2 ! i) = None"
      "count (b2 ! i) = 0" "rownum (b2 ! i) = 0"
      using nc2 N by (simp_all add: n2 n1 ak null_node_def)
  next
    fix i assume "i < N" "nc < i"
    then show "b2 ! i = null_node" using nc2 by (simp add: n2 n1 ak)
  next
    fix i assume i: "i < nc"
    then have iN: "i < N" "Suc i < N" using N by simp_all
    show "right (b2 ! i) = Some (Suc i)" using nc2 N i iN by (auto simp: n2 n1 ak)
    show "left (b2 ! Suc i) = Some i" using nc2 N i iN by (auto simp: n2 n1 ak)
  qed
qed


section \<open>Rings under construction\<close>

text \<open>
  \<open>fwd nx ys\<close>: each node of \<open>ys\<close> points to the next one; \<open>opath\<close> is a list linked in
  both directions whose ends are still open.
\<close>

fun fwd :: "(nat \<Rightarrow> ptr) \<Rightarrow> nat list \<Rightarrow> bool" where
  "fwd nx (a # b # xs) \<longleftrightarrow> nx a = Some b \<and> fwd nx (b # xs)"
| "fwd nx [a] \<longleftrightarrow> True"
| "fwd nx [] \<longleftrightarrow> True"

definition opath :: "(nat \<Rightarrow> ptr) \<Rightarrow> (nat \<Rightarrow> ptr) \<Rightarrow> nat list \<Rightarrow> bool" where
  "opath nx pv ys \<longleftrightarrow> fwd nx ys \<and> fwd pv (rev ys)"

lemma fwd_chain: "fwd nx (a # xs @ [b]) = chain nx a xs b"
  by (induction xs arbitrary: a) auto

lemma fwd_Cons: "ys \<noteq> [] \<Longrightarrow> fwd nx (a # ys) \<longleftrightarrow> nx a = Some (hd ys) \<and> fwd nx ys"
  by (cases ys) auto

lemma fwd_snoc: "ys \<noteq> [] \<Longrightarrow> fwd nx (ys @ [n]) \<longleftrightarrow> fwd nx ys \<and> nx (last ys) = Some n"
  by (induction ys rule: induct_list012) auto

lemma fwd_cong: "(\<And>x. x \<in> set (butlast ys) \<Longrightarrow> nx x = nx' x) \<Longrightarrow> fwd nx ys = fwd nx' ys"
  by (induction ys rule: induct_list012) auto

lemma opath_single [simp]: "opath nx pv [a]"
  by (simp add: opath_def)

lemma opath_snoc:
  assumes "opath nx pv ys" "ys \<noteq> []" "distinct ys" "n \<notin> set ys"
    and "nx' (last ys) = Some n" "pv' n = Some (last ys)"
    and "\<And>x. x \<in> set ys \<Longrightarrow> x \<noteq> last ys \<Longrightarrow> nx' x = nx x"
    and "\<And>x. x \<in> set ys \<Longrightarrow> pv' x = pv x"
  shows "opath nx' pv' (ys @ [n])"
proof -
  have "fwd nx' ys = fwd nx ys"
  proof (rule fwd_cong)
    fix x assume x: "x \<in> set (butlast ys)"
    then have "x \<in> set ys" by (rule in_set_butlastD)
    moreover have "x \<noteq> last ys"
    proof
      assume e: "x = last ys"
      have "distinct (butlast ys @ [last ys])" using assms(2,3) by simp
      then show False using x e by simp
    qed
    ultimately show "nx' x = nx x" by (rule assms(7))
  qed
  then have 1: "fwd nx' (ys @ [n])" using assms(1,2,5) by (simp add: fwd_snoc opath_def)
  have "fwd pv' (rev ys) = fwd pv (rev ys)"
  proof (rule fwd_cong)
    fix x assume "x \<in> set (butlast (rev ys))"
    then have "x \<in> set (rev ys)" by (rule in_set_butlastD)
    then show "pv' x = pv x" using assms(8) by simp
  qed
  then have 2: "fwd pv' (rev (ys @ [n]))"
    using assms(1,2,6) by (simp add: fwd_Cons opath_def hd_rev)
  show ?thesis using 1 2 by (simp add: opath_def)
qed

lemma opath_close:
  assumes "opath nx pv (h # xs)" "distinct (h # xs)"
    and "nx' (last (h # xs)) = Some h" "pv' h = Some (last (h # xs))"
    and "\<And>x. x \<in> set (h # xs) \<Longrightarrow> x \<noteq> last (h # xs) \<Longrightarrow> nx' x = nx x"
    and "\<And>x. x \<in> set xs \<Longrightarrow> pv' x = pv x"
  shows "dring nx' pv' h xs"
proof -
  define ys where "ys = h # xs"
  have ne: "ys \<noteq> []" by (simp add: ys_def)
  have a1: "fwd nx ys" "fwd pv (rev ys)" using assms(1) unfolding opath_def ys_def by blast+
  have a3: "nx' (last ys) = Some h" and a4: "pv' h = Some (last ys)"
    using assms(3,4) unfolding ys_def by blast+
  have d: "distinct ys" using assms(2) unfolding ys_def .
  have e1: "fwd nx' ys = fwd nx ys"
  proof (rule fwd_cong)
    fix x assume x: "x \<in> set (butlast ys)"
    then have "x \<in> set ys" by (rule in_set_butlastD)
    moreover have "x \<noteq> last ys"
    proof
      assume e: "x = last ys"
      have "distinct (butlast ys @ [last ys])" using d ne by simp
      then show False using x e by simp
    qed
    ultimately show "nx' x = nx x" using assms(5) unfolding ys_def by blast
  qed
  have "fwd nx' (ys @ [h])" unfolding fwd_snoc [OF ne] e1 using a1(1) a3 by blast
  then have 1: "chain nx' h xs h" unfolding ys_def using fwd_chain [of nx' h xs h] by simp
  have e2: "fwd pv' (rev ys) = fwd pv (rev ys)"
  proof (rule fwd_cong)
    fix x assume "x \<in> set (butlast (rev ys))"
    then have "x \<in> set (rev xs)" by (simp add: ys_def)
    then show "pv' x = pv x" using assms(6) by simp
  qed
  have ner: "rev ys \<noteq> []" using ne by simp
  have "hd (rev ys) = last ys" using ne by (simp add: hd_rev)
  then have "fwd pv' (h # rev ys)" unfolding fwd_Cons [OF ner] e2 using a1(2) a4 by simp
  moreover have "h # rev ys = h # rev xs @ [h]" by (simp add: ys_def)
  ultimately have 2: "chain pv' h (rev xs) h" using fwd_chain [of pv' h "rev xs" h] by simp
  show ?thesis using 1 2 assms(2) by (simp add: dring_def)
qed

lemma vring_cong:
  assumes "\<And>x. x \<in> set (c # xs) \<Longrightarrow> up (ns' ! x) = up (ns ! x) \<and> down (ns' ! x) = down (ns ! x)
      \<and> column (ns' ! x) = column (ns ! x) \<and> count (ns' ! x) = count (ns ! x)"
  shows "vring ns' c xs = vring ns c xs"
proof -
  have "dring (Dn ns') (Up ns') c xs = dring (Dn ns) (Up ns) c xs"
    by (rule dring_cong) (use assms in \<open>simp add: Dn_def Up_def\<close>)
  then show ?thesis using assms by (auto simp: vring_def)
qed

lemma idx_lt: "r < nr \<Longrightarrow> j < nc \<Longrightarrow> r * nc + j < nc * (nr::nat)"
proof -
  assume a: "r < nr" "j < nc"
  have "r * nc + j < r * nc + nc" using a(2) by simp
  also have "\<dots> = Suc r * nc" by simp
  also have "\<dots> \<le> nr * nc" using a(1) by (intro mult_le_mono1) simp
  finally show ?thesis by (simp add: mult.commute)
qed

lemma idx_inj:
  assumes "a * nc + c = b * nc + j" "c < nc" "j < (nc::nat)"
  shows "a = b \<and> c = j"
proof -
  have "(a * nc + c) div nc = a" "(b * nc + j) div nc = b" using assms(2,3) by simp_all
  then have "a = b" using assms(1) by simp
  then show ?thesis using assms(1) by simp
qed

lemma uinc_small: "x < 2 ^ 63 \<Longrightarrow> uinc x = Suc x"
proof -
  define M :: nat where "M = 2 ^ 64"
  assume "x < 2 ^ 63"
  moreover have "(2::nat) ^ 63 < 2 ^ 64" by simp
  ultimately have "x < 2 ^ 63" "(2::nat) ^ 63 < M" by (simp_all add: M_def)
  then have "Suc x < M" by linarith
  then show ?thesis unfolding uinc_def M_def [symmetric] by simp
qed


section \<open>The second pass: the columns\<close>

text \<open>The effect of the statements that add a node to the column \<open>j\<close>, below \<open>cu\<close>.\<close>

definition add_node :: "nat \<Rightarrow> nat \<Rightarrow> nat \<Rightarrow> nat \<Rightarrow> node list \<Rightarrow> node list" where
  "add_node cu nu j r ns =
     upd nu (\<lambda>m. m\<lparr>rownum := r\<rparr>)
       (upd j (\<lambda>h. h\<lparr>count := uinc (count h)\<rparr>)
         (upd nu (\<lambda>m. m\<lparr>column := Some j\<rparr>)
           (upd nu (\<lambda>m. m\<lparr>up := Some cu\<rparr>)
             (upd cu (\<lambda>c. c\<lparr>down := Some nu\<rparr>) ns))))"

lemma add_node_fields:
  assumes "cu < length ns" "nu < length ns" "j < length ns" "cu \<noteq> nu" "j \<noteq> nu"
  shows "length (add_node cu nu j r ns) = length ns"
    and "left (add_node cu nu j r ns ! i) = left (ns ! i)"
    and "right (add_node cu nu j r ns ! i) = right (ns ! i)"
    and "down (add_node cu nu j r ns ! i) = (if i = cu then Some nu else down (ns ! i))"
    and "up (add_node cu nu j r ns ! i) = (if i = nu then Some cu else up (ns ! i))"
    and "column (add_node cu nu j r ns ! i) = (if i = nu then Some j else column (ns ! i))"
    and "count (add_node cu nu j r ns ! i) = (if i = j then uinc (count (ns ! j)) else count (ns ! i))"
    and "rownum (add_node cu nu j r ns ! i) = (if i = nu then r else rownum (ns ! i))"
proof -
  define h1 where "h1 = upd cu (\<lambda>c. c\<lparr>down := Some nu\<rparr>) ns"
  define h2 where "h2 = upd nu (\<lambda>m. m\<lparr>up := Some cu\<rparr>) h1"
  define h3 where "h3 = upd nu (\<lambda>m. m\<lparr>column := Some j\<rparr>) h2"
  define h4 where "h4 = upd j (\<lambda>h. h\<lparr>count := uinc (count h)\<rparr>) h3"
  define h5 where "h5 = upd nu (\<lambda>m. m\<lparr>rownum := r\<rparr>) h4"
  have e: "add_node cu nu j r ns = h5" by (simp add: add_node_def h5_def h4_def h3_def h2_def h1_def)
  have l: "length h1 = length ns" "length h2 = length ns" "length h3 = length ns"
    "length h4 = length ns" "length h5 = length ns"
    by (simp_all add: h5_def h4_def h3_def h2_def h1_def)
  have n1: "h1 ! k = (if k = cu then (ns ! cu)\<lparr>down := Some nu\<rparr> else ns ! k)" for k
    using assms(1) by (simp add: h1_def)
  have n2: "h2 ! k = (if k = nu then (h1 ! nu)\<lparr>up := Some cu\<rparr> else h1 ! k)" for k
    using assms(2) l by (simp add: h2_def)
  have n3: "h3 ! k = (if k = nu then (h2 ! nu)\<lparr>column := Some j\<rparr> else h2 ! k)" for k
    using assms(2) l by (simp add: h3_def)
  have n4: "h4 ! k = (if k = j then (h3 ! j)\<lparr>count := uinc (count (h3 ! j))\<rparr> else h3 ! k)" for k
    using assms(3) l by (simp add: h4_def)
  have n5: "h5 ! k = (if k = nu then (h4 ! nu)\<lparr>rownum := r\<rparr> else h4 ! k)" for k
    using assms(2) l by (simp add: h5_def)
  show "length (add_node cu nu j r ns) = length ns" by (simp add: e l)
  show "left (add_node cu nu j r ns ! i) = left (ns ! i)" by (simp add: e n5 n4 n3 n2 n1)
  show "right (add_node cu nu j r ns ! i) = right (ns ! i)" by (simp add: e n5 n4 n3 n2 n1)
  show "down (add_node cu nu j r ns ! i) = (if i = cu then Some nu else down (ns ! i))"
    using assms(4) by (simp add: e n5 n4 n3 n2 n1)
  show "up (add_node cu nu j r ns ! i) = (if i = nu then Some cu else up (ns ! i))"
    by (simp add: e n5 n4 n3 n2 n1)
  show "column (add_node cu nu j r ns ! i) = (if i = nu then Some j else column (ns ! i))"
    by (simp add: e n5 n4 n3 n2 n1)
  show "count (add_node cu nu j r ns ! i) = (if i = j then uinc (count (ns ! j)) else count (ns ! i))"
    using assms(4,5) by (simp add: e n5 n4 n3 n2 n1)
  show "rownum (add_node cu nu j r ns ! i) = (if i = nu then r else rownum (ns ! i))"
    by (simp add: e n5 n4 n3 n2 n1)
qed

lemma add_cell_ok:
  assumes "add_cell cells nc j r (ns, nu, used, Some cu) = ok z"
  shows "if cells ! (r * nc + j)
         then nu < length ns \<and> cu < length ns \<and> j < length ns \<and> r * nc + j < length used
              \<and> z = (add_node cu nu j r ns, Suc nu, used[r * nc + j := Some nu], Some nu)
         else z = (ns, nu, used, Some cu)"
  using assms
  by (auto simp: add_cell_def Let_def bnd_ok_iff assign_ok_iff arr_get_ok_iff arr_set_ok_iff
      add_node_def split: if_splits)


text \<open>
  The invariant of the second pass.  \<open>frame\<close>: the sizes, and the \<^verbatim>\<open>left\<close> and \<^verbatim>\<open>right\<close>
  pointers of the first pass are kept.  \<open>done_cols\<close>: the columns before \<open>j\<close> are rings.
  \<open>cur_col\<close>: the nodes \<open>zs\<close> of the column \<open>j\<close> that are linked so far.  \<open>cells_used\<close>:
  the array \<^verbatim>\<open>used\<close> holds each node at the index of its cell.
\<close>

definition frame :: "nat \<Rightarrow> nat \<Rightarrow> nat \<Rightarrow> node list \<Rightarrow> node list \<Rightarrow> nat \<Rightarrow> ptr list \<Rightarrow> bool" where
  "frame N nc nr ns1 ns nu used \<longleftrightarrow> length ns = N \<and> length used = nc * nr \<and> nc < nu \<and> nu \<le> N
     \<and> (\<forall>i. left (ns ! i) = left (ns1 ! i) \<and> right (ns ! i) = right (ns1 ! i))"

definition done_cols :: "nat \<Rightarrow> (nat \<Rightarrow> nat list) \<Rightarrow> nat \<Rightarrow> node list \<Rightarrow> nat \<Rightarrow> bool" where
  "done_cols nc V j ns nu \<longleftrightarrow> (\<forall>c<j. vring ns c (V c) \<and> set (V c) \<subseteq> {nc<..<nu})"

definition cur_col :: "nat \<Rightarrow> nat \<Rightarrow> nat list \<Rightarrow> node list \<Rightarrow> nat \<Rightarrow> bool" where
  "cur_col nc j zs ns nu \<longleftrightarrow> opath (Dn ns) (Up ns) (j # zs) \<and> distinct zs
     \<and> set zs \<subseteq> {nc<..<nu} \<and> (\<forall>n\<in>set zs. column (ns ! n) = Some j)
     \<and> count (ns ! j) = length zs \<and> (\<forall>c. j < c \<and> c \<le> nc \<longrightarrow> count (ns ! c) = 0)"

definition cells_used ::
  "nat \<Rightarrow> nat \<Rightarrow> (nat \<Rightarrow> nat list) \<Rightarrow> nat \<Rightarrow> nat list \<Rightarrow> node list \<Rightarrow> nat \<Rightarrow> ptr list \<Rightarrow> bool" where
  "cells_used nc nr V j zs ns nu used \<longleftrightarrow>
     (\<forall>n. nc < n \<and> n < nu \<longrightarrow> ((\<exists>c<j. n \<in> set (V c)) \<or> n \<in> set zs) \<and> rownum (ns ! n) < nr
        \<and> used ! (rownum (ns ! n) * nc + the (column (ns ! n))) = Some n)
     \<and> (\<forall>i<nc * nr. \<forall>n. used ! i = Some n \<longrightarrow>
          nc < n \<and> n < nu \<and> i = rownum (ns ! n) * nc + the (column (ns ! n)))"

lemma add_cell_inv:
  assumes fr: "frame N nc nr ns1 ns nu used" and dc: "done_cols nc V j ns nu"
    and cc: "cur_col nc j zs ns nu" and cu: "cells_used nc nr V j zs ns nu used"
    and rows: "\<forall>n\<in>set zs. rownum (ns ! n) < r" and j: "j < nc" and r: "r < nr" and N: "N < 2 ^ 63"
    and step: "add_cell cells nc j r (ns, nu, used, Some (last (j # zs))) = ok (ns', nu', used', cur')"
  shows "\<exists>zs'. frame N nc nr ns1 ns' nu' used' \<and> done_cols nc V j ns' nu'
      \<and> cur_col nc j zs' ns' nu' \<and> cells_used nc nr V j zs' ns' nu' used'
      \<and> cur' = Some (last (j # zs')) \<and> (\<forall>n\<in>set zs'. rownum (ns' ! n) < Suc r)"
proof (cases "cells ! (r * nc + j)")
  case False
  then have "(ns', nu', used', cur') = (ns, nu, used, Some (last (j # zs)))"
    using add_cell_ok [OF step] by simp
  then show ?thesis using fr dc cc cu rows by (auto intro!: exI [of _ zs] less_SucI)
next
  case True
  define c where "c = last (j # zs)"
  have ok: "nu < length ns" "c < length ns" "j < length ns" "r * nc + j < length used"
    and z: "ns' = add_node c nu j r ns" "nu' = Suc nu" "used' = used[r * nc + j := Some nu]"
      "cur' = Some nu"
    using add_cell_ok [OF step] True by (simp_all add: c_def)
  have len: "length ns = N" "length used = nc * nr" "nc < nu" "nu \<le> N"
    and lr: "\<And>i. left (ns ! i) = left (ns1 ! i) \<and> right (ns ! i) = right (ns1 ! i)"
    using fr by (simp_all add: frame_def)
  have op: "opath (Dn ns) (Up ns) (j # zs)" and dz: "distinct zs" and sz: "set zs \<subseteq> {nc<..<nu}"
    and colz: "\<And>n. n \<in> set zs \<Longrightarrow> column (ns ! n) = Some j"
    and cnt: "count (ns ! j) = length zs"
    and cnt0: "\<And>c. j < c \<Longrightarrow> c \<le> nc \<Longrightarrow> count (ns ! c) = 0"
    using cc by (simp_all add: cur_col_def)
  have cin: "c \<in> set (j # zs)" unfolding c_def by (rule last_in_set) simp
  have cnu: "c \<noteq> nu" "j \<noteq> nu" using cin sz j len(3) by auto
  note f = add_node_fields [OF ok(2) ok(1) ok(3) cnu, of r]
  have fr': "frame N nc nr ns1 ns' nu' used'"
    using len lr ok(1) by (simp add: frame_def z f)
  have dc': "done_cols nc V j ns' nu'"
    unfolding done_cols_def
  proof (intro allI impI conjI)
    fix k assume k: "k < j"
    have v: "vring ns k (V k)" and s: "set (V k) \<subseteq> {nc<..<nu}"
      using dc k by (simp_all add: done_cols_def)
    show "set (V k) \<subseteq> {nc<..<nu'}" using s by (auto simp: z)
    have colk: "\<And>n. n \<in> set (V k) \<Longrightarrow> column (ns ! n) = Some k" using v by (simp add: vring_def)
    have "vring ns' k (V k) = vring ns k (V k)"
    proof (rule vring_cong)
      fix x assume x: "x \<in> set (k # V k)"
      have "x \<noteq> nu" using x s k j len(3) by auto
      moreover have "x \<noteq> j" using x s k j by auto
      moreover have "x \<noteq> c"
      proof
        assume e: "x = c"
        show False
        proof (cases "c = j")
          case True
          then show False using e \<open>x \<noteq> j\<close> by simp
        next
          case False
          then have cz: "c \<in> set zs" using cin by simp
          then have "column (ns ! c) = Some j" by (rule colz)
          moreover have "x \<in> set (V k)" using x e cz sz k j by auto
          ultimately show False using colk [of x] e k by simp
        qed
      qed
      ultimately show "up (ns' ! x) = up (ns ! x) \<and> down (ns' ! x) = down (ns ! x)
          \<and> column (ns' ! x) = column (ns ! x) \<and> count (ns' ! x) = count (ns ! x)"
        by (simp add: z f)
    qed
    then show "vring ns' k (V k)" using v by simp
  qed
  have dj: "distinct (j # zs)" using dz sz j by auto
  have lz: "length zs < 2 ^ 63"
  proof -
    have "length zs \<le> N" by (rule distinct_length_bound [OF dz]) (use sz len(4) in auto)
    then show ?thesis using N by simp
  qed
  have cc': "cur_col nc j (zs @ [nu]) ns' nu'"
    unfolding cur_col_def
  proof (intro conjI ballI allI impI)
    have "opath (Dn ns') (Up ns') ((j # zs) @ [nu])"
    proof (rule opath_snoc [OF op _ dj])
      show "j # zs \<noteq> []" by simp
      show "nu \<notin> set (j # zs)" using sz j len(3) by auto
      show "Dn ns' (last (j # zs)) = Some nu"
        unfolding c_def [symmetric] by (simp add: Dn_def z f)
      show "Up ns' nu = Some (last (j # zs))"
        unfolding c_def [symmetric] by (simp add: Up_def z f)
      show "\<And>x. x \<in> set (j # zs) \<Longrightarrow> x \<noteq> last (j # zs) \<Longrightarrow> Dn ns' x = Dn ns x"
        unfolding c_def [symmetric] by (simp add: Dn_def z f)
      show "\<And>x. x \<in> set (j # zs) \<Longrightarrow> Up ns' x = Up ns x"
        using sz j len(3) by (auto simp: Up_def z f)
    qed
    then show "opath (Dn ns') (Up ns') (j # zs @ [nu])" by simp
    show "distinct (zs @ [nu])" using dz sz by auto
    show "set (zs @ [nu]) \<subseteq> {nc<..<nu'}" using sz len(3) by (auto simp: z)
    show "count (ns' ! j) = length (zs @ [nu])" using cnt lz by (simp add: z f uinc_small)
    show "\<And>n. n \<in> set (zs @ [nu]) \<Longrightarrow> column (ns' ! n) = Some j"
      using colz by (auto simp: z f)
    show "\<And>k. j < k \<and> k \<le> nc \<Longrightarrow> count (ns' ! k) = 0" using cnt0 by (simp add: z f)
  qed
  have cu1: "\<And>n. nc < n \<Longrightarrow> n < nu \<Longrightarrow> ((\<exists>c<j. n \<in> set (V c)) \<or> n \<in> set zs) \<and> rownum (ns ! n) < nr
        \<and> used ! (rownum (ns ! n) * nc + the (column (ns ! n))) = Some n"
    and cu2: "\<And>i n. i < nc * nr \<Longrightarrow> used ! i = Some n \<Longrightarrow>
          nc < n \<and> n < nu \<and> i = rownum (ns ! n) * nc + the (column (ns ! n))"
    using cu by (simp_all add: cells_used_def)
  have other: "rownum (ns ! n) * nc + the (column (ns ! n)) \<noteq> r * nc + j"
    if n: "nc < n" "n < nu" for n
  proof
    assume e: "rownum (ns ! n) * nc + the (column (ns ! n)) = r * nc + j"
    from cu1 [OF n] consider k where "k < j" "n \<in> set (V k)" | "n \<in> set zs" by blast
    then show False
    proof cases
      case 1
      have "column (ns ! n) = Some k" using dc 1 by (simp add: done_cols_def vring_def)
      then show False using idx_inj [of "rownum (ns ! n)" nc k r j] e 1(1) j by simp
    next
      case 2
      have "column (ns ! n) = Some j" using colz 2 by simp
      then show False using idx_inj [of "rownum (ns ! n)" nc j r j] e j rows 2 by auto
    qed
  qed
  have cu': "cells_used nc nr V j (zs @ [nu]) ns' nu' used'"
    unfolding cells_used_def
  proof (intro conjI allI impI)
    fix n assume n: "nc < n \<and> n < nu'"
    show "(\<exists>c<j. n \<in> set (V c)) \<or> n \<in> set (zs @ [nu])"
      using cu1 [of n] n by (cases "n = nu") (auto simp: z)
    show "rownum (ns' ! n) < nr" using cu1 [of n] n r by (cases "n = nu") (auto simp: z f)
    show "used' ! (rownum (ns' ! n) * nc + the (column (ns' ! n))) = Some n"
    proof (cases "n = nu")
      case True
      then show ?thesis using ok(4) by (simp add: z f)
    next
      case False
      then have lt: "nc < n" "n < nu" using n by (simp_all add: z)
      show ?thesis using cu1 [OF lt] other [OF lt] False by (simp add: z f)
    qed
  next
    fix i n assume i: "i < nc * nr" and u: "used' ! i = Some n"
    show "nc < n" "n < nu'" "i = rownum (ns' ! n) * nc + the (column (ns' ! n))"
    proof -
      show "nc < n" using cu2 [OF i] u ok(4) len(3) by (cases "i = r * nc + j") (auto simp: z)
      show "n < nu'" using cu2 [OF i] u ok(4) by (cases "i = r * nc + j") (auto simp: z)
      show "i = rownum (ns' ! n) * nc + the (column (ns' ! n))"
      proof (cases "i = r * nc + j")
        case True
        then have "n = nu" using u ok(4) by (simp add: z)
        then show ?thesis unfolding True by (simp add: z f)
      next
        case False
        then have "used ! i = Some n" using u by (simp add: z)
        from cu2 [OF i this] show ?thesis by (simp add: z f)
      qed
    qed
  qed
  have rows': "\<forall>n\<in>set (zs @ [nu]). rownum (ns' ! n) < Suc r"
    using rows sz by (auto simp: z f intro: less_SucI)
  show ?thesis
    using fr' dc' cc' cu' rows' z(4) by (intro exI [of _ "zs @ [nu]"]) simp
qed


lemma build_column_inv:
  assumes fr: "frame N nc nr ns1 ns nu used" and dc: "done_cols nc V j ns nu"
    and cc: "cur_col nc j [] ns nu" and cu: "cells_used nc nr V j [] ns nu used"
    and j: "j < nc" and N: "N < 2 ^ 63"
    and step: "build_column cells nc nr j (ns, nu, used) = ok (ns', nu', used')"
  shows "\<exists>V'. frame N nc nr ns1 ns' nu' used' \<and> done_cols nc V' (Suc j) ns' nu'
      \<and> cur_col nc (Suc j) [] ns' nu' \<and> cells_used nc nr V' (Suc j) [] ns' nu' used'"
proof -
  define I where "I r z \<longleftrightarrow> (case z of (a, u, us, cur) \<Rightarrow>
      \<exists>zs. frame N nc nr ns1 a u us \<and> done_cols nc V j a u \<and> cur_col nc j zs a u
        \<and> cells_used nc nr V j zs a u us \<and> cur = Some (last (j # zs))
        \<and> (\<forall>n\<in>set zs. rownum (a ! n) < r))" for r z
  from step obtain a u us cur where
    loop: "for_loop 0 nr (add_cell cells nc j) (ns, nu, used, Some j) = ok (a, u, us, cur)"
    and rest: "bnd (assign a cur (\<lambda>c. c\<lparr>down := Some j\<rparr>)) (\<lambda>ns.
       bnd (assign ns (Some j) (\<lambda>h. h\<lparr>up := cur\<rparr>)) (\<lambda>ns. ok (ns, u, us))) = ok (ns', nu', used')"
    by (auto simp: build_column_def bnd_ok_iff)
  have "I nr (a, u, us, cur)"
  proof (rule for_loop_partial [where I = I, OF loop])
    show "I 0 (ns, nu, used, Some j)"
      using fr dc cc cu by (auto simp: I_def intro!: exI [of _ "[]"])
    show "0 \<le> nr" by simp
    fix r z z'
    assume r: "r < nr" and i: "I r z" and b: "add_cell cells nc j r z = ok z'"
    obtain a1 u1 us1 cur1 where z: "z = (a1, u1, us1, cur1)" by (cases z)
    obtain a2 u2 us2 cur2 where z': "z' = (a2, u2, us2, cur2)" by (cases z')
    from i obtain zs where zs: "frame N nc nr ns1 a1 u1 us1" "done_cols nc V j a1 u1"
      "cur_col nc j zs a1 u1" "cells_used nc nr V j zs a1 u1 us1" "cur1 = Some (last (j # zs))"
      "\<forall>n\<in>set zs. rownum (a1 ! n) < r"
      by (auto simp: I_def z)
    from add_cell_inv [OF zs(1-4) zs(6) j r N b [unfolded z z' zs(5)]]
    show "I (Suc r) z'" by (simp add: I_def z')
  qed
  then obtain zs where zs: "frame N nc nr ns1 a u us" "done_cols nc V j a u"
      "cur_col nc j zs a u" "cells_used nc nr V j zs a u us" "cur = Some (last (j # zs))"
    by (auto simp: I_def)
  define c where "c = last (j # zs)"
  have len: "length a = N" "length us = nc * nr" "nc < u" "u \<le> N"
    and lr: "\<And>i. left (a ! i) = left (ns1 ! i) \<and> right (a ! i) = right (ns1 ! i)"
    using zs(1) by (simp_all add: frame_def)
  have op: "opath (Dn a) (Up a) (j # zs)" and dz: "distinct zs" and sz: "set zs \<subseteq> {nc<..<u}"
    and colz: "\<And>n. n \<in> set zs \<Longrightarrow> column (a ! n) = Some j"
    and cnt: "count (a ! j) = length zs"
    and cnt0: "\<And>c. j < c \<Longrightarrow> c \<le> nc \<Longrightarrow> count (a ! c) = 0"
    using zs(3) by (simp_all add: cur_col_def)
  have cin: "c \<in> set (j # zs)" unfolding c_def by (rule last_in_set) simp
  have cl: "c < length a" "j < length a" using cin sz len j by auto
  define b where "b = upd j (\<lambda>h. h\<lparr>up := Some c\<rparr>) (upd c (\<lambda>c. c\<lparr>down := Some j\<rparr>) a)"
  have curc: "cur = Some c" using zs(5) unfolding c_def .
  have res: "ns' = b" "nu' = u" "used' = us"
    using rest cl unfolding curc by (simp_all add: b_def)
  have f: "length b = length a" "\<And>i. left (b ! i) = left (a ! i)" "\<And>i. right (b ! i) = right (a ! i)"
    "\<And>i. down (b ! i) = (if i = c then Some j else down (a ! i))"
    "\<And>i. up (b ! i) = (if i = j then Some c else up (a ! i))"
    "\<And>i. column (b ! i) = column (a ! i)" "\<And>i. count (b ! i) = count (a ! i)"
    "\<And>i. rownum (b ! i) = rownum (a ! i)"
  proof -
    have n1: "upd c (\<lambda>c. c\<lparr>down := Some j\<rparr>) a ! k
        = (if k = c then (a ! c)\<lparr>down := Some j\<rparr> else a ! k)" for k
      using cl by simp
    have n2: "b ! k = (if k = j then (upd c (\<lambda>c. c\<lparr>down := Some j\<rparr>) a ! j)\<lparr>up := Some c\<rparr>
        else upd c (\<lambda>c. c\<lparr>down := Some j\<rparr>) a ! k)" for k
      using cl by (simp add: b_def)
    show "length b = length a" by (simp add: b_def)
    show "\<And>i. left (b ! i) = left (a ! i)" "\<And>i. right (b ! i) = right (a ! i)"
      "\<And>i. down (b ! i) = (if i = c then Some j else down (a ! i))"
      "\<And>i. up (b ! i) = (if i = j then Some c else up (a ! i))"
      "\<And>i. column (b ! i) = column (a ! i)" "\<And>i. count (b ! i) = count (a ! i)"
      "\<And>i. rownum (b ! i) = rownum (a ! i)"
      using cl by (auto simp: n2 n1)
  qed
  define V' where "V' = V(j := zs)"
  have fr': "frame N nc nr ns1 b u us" using len lr by (simp add: frame_def f)
  have dj: "distinct (j # zs)" using dz sz j by auto
  have dc': "done_cols nc V' (Suc j) b u"
    unfolding done_cols_def
  proof (intro allI impI)
    fix k assume k: "k < Suc j"
    show "vring b k (V' k) \<and> set (V' k) \<subseteq> {nc<..<u}"
    proof (cases "k = j")
      case True
      have "dring (Dn b) (Up b) j zs"
      proof (rule opath_close [OF op dj])
        show "Dn b (last (j # zs)) = Some j" unfolding c_def [symmetric] by (simp add: Dn_def f)
        show "Up b j = Some (last (j # zs))" unfolding c_def [symmetric] by (simp add: Up_def f)
        show "\<And>x. x \<in> set (j # zs) \<Longrightarrow> x \<noteq> last (j # zs) \<Longrightarrow> Dn b x = Dn a x"
          unfolding c_def [symmetric] by (simp add: Dn_def f)
        show "\<And>x. x \<in> set zs \<Longrightarrow> Up b x = Up a x" using dj by (auto simp: Up_def f)
      qed
      then show ?thesis using cnt colz sz by (simp add: True V'_def vring_def f)
    next
      case False
      then have kj: "k < j" using k by simp
      have v: "vring a k (V k)" and s: "set (V k) \<subseteq> {nc<..<u}"
        using zs(2) kj by (simp_all add: done_cols_def)
      have colk: "\<And>n. n \<in> set (V k) \<Longrightarrow> column (a ! n) = Some k" using v by (simp add: vring_def)
      have "vring b k (V k) = vring a k (V k)"
      proof (rule vring_cong)
        fix x assume x: "x \<in> set (k # V k)"
        have xj: "x \<noteq> j" using x s kj j by auto
        moreover have "x \<noteq> c"
        proof
          assume e: "x = c"
          then have cz: "c \<in> set zs" using cin xj by simp
          then have "column (a ! c) = Some j" by (rule colz)
          moreover have "x \<in> set (V k)" using x e cz sz kj j by auto
          ultimately show False using colk [of x] e kj by simp
        qed
        ultimately show "up (b ! x) = up (a ! x) \<and> down (b ! x) = down (a ! x)
            \<and> column (b ! x) = column (a ! x) \<and> count (b ! x) = count (a ! x)"
          by (simp add: f)
      qed
      then show ?thesis using v s False by (simp add: V'_def)
    qed
  qed
  have cc': "cur_col nc (Suc j) [] b u"
    using cnt0 j by (simp add: cur_col_def f)
  have cu1: "\<And>n. nc < n \<Longrightarrow> n < u \<Longrightarrow> ((\<exists>c<j. n \<in> set (V c)) \<or> n \<in> set zs) \<and> rownum (a ! n) < nr
        \<and> us ! (rownum (a ! n) * nc + the (column (a ! n))) = Some n"
    and cu2: "\<And>i n. i < nc * nr \<Longrightarrow> us ! i = Some n \<Longrightarrow>
          nc < n \<and> n < u \<and> i = rownum (a ! n) * nc + the (column (a ! n))"
    using zs(4) by (simp_all add: cells_used_def)
  have cu': "cells_used nc nr V' (Suc j) [] b u us"
    unfolding cells_used_def
  proof (intro conjI allI impI)
    fix n assume n: "nc < n \<and> n < u"
    from cu1 [of n] n consider k where "k < j" "n \<in> set (V k)" | "n \<in> set zs" by blast
    then have "\<exists>c<Suc j. n \<in> set (V' c)"
    proof cases
      case 1
      then show ?thesis by (intro exI [of _ k]) (simp add: V'_def)
    next
      case 2
      then show ?thesis by (intro exI [of _ j]) (simp add: V'_def)
    qed
    then show "(\<exists>c<Suc j. n \<in> set (V' c)) \<or> n \<in> set []" by simp
    show "rownum (b ! n) < nr" using cu1 [of n] n by (simp add: f)
    show "us ! (rownum (b ! n) * nc + the (column (b ! n))) = Some n"
      using cu1 [of n] n by (simp add: f)
  next
    fix i n assume "i < nc * nr" "us ! i = Some n"
    from cu2 [OF this]
    show "nc < n" "n < u" "i = rownum (b ! n) * nc + the (column (b ! n))" by (simp_all add: f)
  qed
  show ?thesis using fr' dc' cc' cu' unfolding res by blast
qed


lemma second_pass:
  assumes hl: "headers_linked N nc ns1" and N: "N < 2 ^ 63"
    and loop: "for_loop 0 nc (build_column cells nc nr) (ns1, Suc nc, replicate (nc * nr) None)
        = ok (ns2, nu, used)"
  shows "\<exists>V. frame N nc nr ns1 ns2 nu used \<and> done_cols nc V nc ns2 nu
      \<and> cells_used nc nr V nc [] ns2 nu used"
proof -
  define I where "I j z \<longleftrightarrow> (case z of (a, u, us) \<Rightarrow>
      \<exists>V. frame N nc nr ns1 a u us \<and> done_cols nc V j a u \<and> cur_col nc j [] a u
        \<and> cells_used nc nr V j [] a u us)" for j z
  have h: "length ns1 = N" "nc < N" "\<And>i. i < N \<Longrightarrow> count (ns1 ! i) = 0"
    using hl by (simp_all add: headers_linked_def)
  have "I nc (ns2, nu, used)"
  proof (rule for_loop_partial [where I = I, OF loop])
    have "frame N nc nr ns1 ns1 (Suc nc) (replicate (nc * nr) None)"
      using h by (simp add: frame_def)
    moreover have "done_cols nc (\<lambda>c. []) 0 ns1 (Suc nc)" by (simp add: done_cols_def)
    moreover have "cur_col nc 0 [] ns1 (Suc nc)" using h by (simp add: cur_col_def)
    moreover have "cells_used nc nr (\<lambda>c. []) 0 [] ns1 (Suc nc) (replicate (nc * nr) None)"
      by (simp add: cells_used_def)
    ultimately show "I 0 (ns1, Suc nc, replicate (nc * nr) None)"
      unfolding I_def by blast
    show "0 \<le> nc" by simp
    fix j z z'
    assume j: "j < nc" and i: "I j z" and b: "build_column cells nc nr j z = ok z'"
    obtain a u us where z: "z = (a, u, us)" by (cases z)
    obtain a' u' us' where z': "z' = (a', u', us')" by (cases z')
    from i obtain V where V: "frame N nc nr ns1 a u us" "done_cols nc V j a u"
      "cur_col nc j [] a u" "cells_used nc nr V j [] a u us"
      by (auto simp: I_def z)
    from build_column_inv [OF V j N b [unfolded z z']]
    show "I (Suc j) z'" by (simp add: I_def z')
  qed
  then show ?thesis by (auto simp: I_def)
qed

section \<open>The third pass: the rows\<close>

text \<open>The nodes of the row \<open>r\<close> in the columns before \<open>c\<close>, as \<^verbatim>\<open>used\<close> holds them.\<close>

definition row_upto :: "ptr list \<Rightarrow> nat \<Rightarrow> nat \<Rightarrow> nat \<Rightarrow> nat list" where
  "row_upto used nc r c = map the (filter (\<lambda>p. p \<noteq> None) (map (\<lambda>c. used ! (r * nc + c)) [0..<c]))"

lemma row_upto_0 [simp]: "row_upto used nc r 0 = []"
  by (simp add: row_upto_def)

lemma row_upto_Suc:
  "row_upto used nc r (Suc c) = row_upto used nc r c
     @ (case used ! (r * nc + c) of None \<Rightarrow> [] | Some n \<Rightarrow> [n])"
  by (simp add: row_upto_def split: option.splits)

lemma set_row_upto:
  "set (row_upto used nc r c) = {n. \<exists>k<c. used ! (r * nc + k) = Some n}"
  by (induction c) (auto simp: row_upto_Suc less_Suc_eq split: option.splits)

text \<open>What the third pass needs of the second.\<close>

definition cells_ok :: "nat \<Rightarrow> nat \<Rightarrow> nat \<Rightarrow> node list \<Rightarrow> ptr list \<Rightarrow> bool" where
  "cells_ok nc nr nu ns used \<longleftrightarrow>
     (\<forall>n. nc < n \<and> n < nu \<longrightarrow> (\<exists>c<nc. column (ns ! n) = Some c) \<and> rownum (ns ! n) < nr
        \<and> used ! (rownum (ns ! n) * nc + the (column (ns ! n))) = Some n)
     \<and> (\<forall>i<nc * nr. \<forall>n. used ! i = Some n \<longrightarrow>
          nc < n \<and> n < nu \<and> i = rownum (ns ! n) * nc + the (column (ns ! n)))"

lemma cells_okD:
  assumes "cells_ok nc nr nu ns used"
  shows "\<And>n. nc < n \<Longrightarrow> n < nu \<Longrightarrow> \<exists>c<nc. column (ns ! n) = Some c"
    and "\<And>n. nc < n \<Longrightarrow> n < nu \<Longrightarrow> rownum (ns ! n) < nr"
    and "\<And>n. nc < n \<Longrightarrow> n < nu \<Longrightarrow> used ! (rownum (ns ! n) * nc + the (column (ns ! n))) = Some n"
    and "\<And>r c n. r < nr \<Longrightarrow> c < nc \<Longrightarrow> used ! (r * nc + c) = Some n
           \<Longrightarrow> nc < n \<and> n < nu \<and> rownum (ns ! n) = r \<and> column (ns ! n) = Some c"
proof -
  have a: "\<And>n. nc < n \<Longrightarrow> n < nu \<Longrightarrow> (\<exists>c<nc. column (ns ! n) = Some c) \<and> rownum (ns ! n) < nr
        \<and> used ! (rownum (ns ! n) * nc + the (column (ns ! n))) = Some n"
    and b: "\<And>i n. i < nc * nr \<Longrightarrow> used ! i = Some n \<Longrightarrow>
          nc < n \<and> n < nu \<and> i = rownum (ns ! n) * nc + the (column (ns ! n))"
    using assms by (simp_all add: cells_ok_def)
  show "\<And>n. nc < n \<Longrightarrow> n < nu \<Longrightarrow> \<exists>c<nc. column (ns ! n) = Some c"
    "\<And>n. nc < n \<Longrightarrow> n < nu \<Longrightarrow> rownum (ns ! n) < nr"
    "\<And>n. nc < n \<Longrightarrow> n < nu \<Longrightarrow> used ! (rownum (ns ! n) * nc + the (column (ns ! n))) = Some n"
    using a by blast+
  fix r c n assume r: "r < nr" and c: "c < nc" and u: "used ! (r * nc + c) = Some n"
  from b [OF idx_lt [OF r c] u]
  have n: "nc < n" "n < nu" and e: "r * nc + c = rownum (ns ! n) * nc + the (column (ns ! n))"
    by simp_all
  from a [OF n] obtain c' where c': "c' < nc" "column (ns ! n) = Some c'" by blast
  from idx_inj [of r nc c "rownum (ns ! n)" c'] e c c'
  show "nc < n \<and> n < nu \<and> rownum (ns ! n) = r \<and> column (ns ! n) = Some c" using n by simp
qed

lemma cells_used_ok:
  assumes "done_cols nc V nc ns nu" "cells_used nc nr V nc [] ns nu used"
  shows "cells_ok nc nr nu ns used"
proof -
  have "\<exists>c<nc. column (ns ! n) = Some c" if "nc < n" "n < nu" for n
  proof -
    from assms(2) that obtain c where c: "c < nc" "n \<in> set (V c)"
      by (auto simp: cells_used_def)
    then have "column (ns ! n) = Some c" using assms(1) by (simp add: done_cols_def vring_def)
    then show ?thesis using c(1) by blast
  qed
  then show ?thesis using assms(2) by (simp add: cells_ok_def cells_used_def)
qed

lemma row_upto_props:
  assumes ok: "cells_ok nc nr nu ns used" and r: "r < nr" and c: "c \<le> nc"
  shows "distinct (row_upto used nc r c)"
    and "set (row_upto used nc r c) = {n. nc < n \<and> n < nu \<and> rownum (ns ! n) = r
           \<and> (\<exists>k<c. column (ns ! n) = Some k)}"
proof -
  note d = cells_okD [OF ok]
  have s: "set (row_upto used nc r c) = {n. nc < n \<and> n < nu \<and> rownum (ns ! n) = r
           \<and> (\<exists>k<c. column (ns ! n) = Some k)}"
    if "c \<le> nc" for c
  proof (intro set_eqI iffI)
    fix n assume "n \<in> set (row_upto used nc r c)"
    then obtain k where k: "k < c" "used ! (r * nc + k) = Some n" by (auto simp: set_row_upto)
    from d(4) [OF r _ k(2)] k(1) that
    show "n \<in> {n. nc < n \<and> n < nu \<and> rownum (ns ! n) = r \<and> (\<exists>k<c. column (ns ! n) = Some k)}"
      by auto
  next
    fix n assume "n \<in> {n. nc < n \<and> n < nu \<and> rownum (ns ! n) = r \<and> (\<exists>k<c. column (ns ! n) = Some k)}"
    then obtain k where n: "nc < n" "n < nu" "rownum (ns ! n) = r" "k < c" "column (ns ! n) = Some k"
      by auto
    from d(3) [OF n(1,2)] have "used ! (r * nc + k) = Some n" by (simp add: n)
    then show "n \<in> set (row_upto used nc r c)" using n(4) by (auto simp: set_row_upto)
  qed
  show "distinct (row_upto used nc r c)"
    using c
  proof (induction c)
    case 0
    then show ?case by simp
  next
    case (Suc c)
    have "n \<notin> set (row_upto used nc r c)" if "used ! (r * nc + c) = Some n" for n
    proof
      assume "n \<in> set (row_upto used nc r c)"
      then obtain k where "k < c" "column (ns ! n) = Some k" using s [of c] Suc.prems by auto
      moreover have "column (ns ! n) = Some c" using d(4) [OF r _ that] Suc.prems by simp
      ultimately show False by simp
    qed
    then show ?case using Suc by (auto simp: row_upto_Suc split: option.splits)
  qed
  show "set (row_upto used nc r c) = {n. nc < n \<and> n < nu \<and> rownum (ns ! n) = r
           \<and> (\<exists>k<c. column (ns ! n) = Some k)}"
    by (rule s [OF c])
qed


text \<open>
  The invariant of the third pass: it changes only the \<^verbatim>\<open>left\<close> and \<^verbatim>\<open>right\<close> pointers
  of the nodes after the root, and the rows before \<open>r\<close> are rings.
\<close>

definition rows_frame :: "nat \<Rightarrow> nat \<Rightarrow> node list \<Rightarrow> node list \<Rightarrow> bool" where
  "rows_frame N nc ns2 ns \<longleftrightarrow> length ns = N
     \<and> (\<forall>i. up (ns ! i) = up (ns2 ! i) \<and> down (ns ! i) = down (ns2 ! i)
            \<and> column (ns ! i) = column (ns2 ! i) \<and> count (ns ! i) = count (ns2 ! i)
            \<and> rownum (ns ! i) = rownum (ns2 ! i))
     \<and> (\<forall>i\<le>nc. left (ns ! i) = left (ns2 ! i) \<and> right (ns ! i) = right (ns2 ! i))"

definition row_ring :: "node list \<Rightarrow> nat list \<Rightarrow> bool" where
  "row_ring ns zs \<longleftrightarrow> zs = [] \<or> dring (Rt ns) (Lf ns) (hd zs) (tl zs)"

definition rows_done :: "ptr list \<Rightarrow> nat \<Rightarrow> nat \<Rightarrow> node list \<Rightarrow> bool" where
  "rows_done used nc r ns \<longleftrightarrow> (\<forall>r'<r. row_ring ns (row_upto used nc r' nc))"

definition first_of :: "nat list \<Rightarrow> ptr" where
  "first_of zs = (if zs = [] then None else Some (hd zs))"

definition last_of :: "nat list \<Rightarrow> ptr" where
  "last_of zs = (if zs = [] then None else Some (last zs))"

text \<open>Linking two nodes of the row \<open>r\<close> keeps the frame and the rows that are done.\<close>

lemma link_row_nodes:
  assumes ok: "cells_ok nc nr nu ns2 used" and fr: "rows_frame N nc ns2 ns"
    and rd: "rows_done used nc r ns" and r: "r < nr" and nu: "nu \<le> N"
    and a: "nc < a" "a < nu" "rownum (ns2 ! a) = r" and b: "nc < b" "b < nu" "rownum (ns2 ! b) = r"
  defines "ns' \<equiv> upd b (\<lambda>m. m\<lparr>left := Some a\<rparr>) (upd a (\<lambda>c. c\<lparr>right := Some b\<rparr>) ns)"
  shows "rows_frame N nc ns2 ns'" and "rows_done used nc r ns'"
    and "Rt ns' a = Some b" and "Lf ns' b = Some a"
    and "\<And>x. x \<noteq> a \<Longrightarrow> Rt ns' x = Rt ns x" and "\<And>x. x \<noteq> b \<Longrightarrow> Lf ns' x = Lf ns x"
proof -
  have len: "length ns = N" using fr by (simp add: rows_frame_def)
  have al: "a < length ns" "b < length ns" using a b nu len by simp_all
  have n1: "upd a (\<lambda>c. c\<lparr>right := Some b\<rparr>) ns ! k
      = (if k = a then (ns ! a)\<lparr>right := Some b\<rparr> else ns ! k)" for k
    using al by simp
  have n2: "ns' ! k = (if k = b then (upd a (\<lambda>c. c\<lparr>right := Some b\<rparr>) ns ! b)\<lparr>left := Some a\<rparr>
      else upd a (\<lambda>c. c\<lparr>right := Some b\<rparr>) ns ! k)" for k
    using al by (simp add: ns'_def)
  have len': "length ns' = N" using len by (simp add: ns'_def)
  show "rows_frame N nc ns2 ns'"
    using fr a(1) b(1) len' by (auto simp: rows_frame_def n2 n1)
  show rt: "Rt ns' a = Some b" using al by (auto simp: Rt_def n2 n1)
  show lf: "Lf ns' b = Some a" using al by (auto simp: Lf_def n2 n1)
  show rt': "\<And>x. x \<noteq> a \<Longrightarrow> Rt ns' x = Rt ns x" by (auto simp: Rt_def n2 n1)
  show lf': "\<And>x. x \<noteq> b \<Longrightarrow> Lf ns' x = Lf ns x" by (auto simp: Lf_def n2 n1)
  show "rows_done used nc r ns'"
    unfolding rows_done_def
  proof (intro allI impI)
    fix r' assume r': "r' < r"
    define zs where "zs = row_upto used nc r' nc"
    have s: "\<And>x. x \<in> set zs \<Longrightarrow> rownum (ns2 ! x) = r'"
      using row_upto_props(2) [OF ok less_trans [OF r' r] order_refl] by (auto simp: zs_def)
    have rr: "row_ring ns zs" using rd r' by (simp add: rows_done_def zs_def)
    show "row_ring ns' zs"
    proof (cases "zs = []")
      case True
      then show ?thesis by (simp add: row_ring_def)
    next
      case False
      have "dring (Rt ns') (Lf ns') (hd zs) (tl zs) = dring (Rt ns) (Lf ns) (hd zs) (tl zs)"
      proof (rule dring_cong)
        fix x assume "x \<in> set (hd zs # tl zs)"
        then have "x \<in> set zs" using False by simp
        then have "rownum (ns2 ! x) = r'" by (rule s)
        then have "x \<noteq> a" "x \<noteq> b" using a(3) b(3) r' by auto
        then show "Rt ns' x = Rt ns x \<and> Lf ns' x = Lf ns x" using rt' lf' by simp
      qed
      then show ?thesis using rr False by (simp add: row_ring_def)
    qed
  qed
qed

lemma link_cell_inv:
  assumes ok: "cells_ok nc nr nu ns2 used" and fr: "rows_frame N nc ns2 ns"
    and rd: "rows_done used nc r ns" and r: "r < nr" and c: "c < nc" and nu: "nu \<le> N"
    and op: "opath (Rt ns) (Lf ns) (row_upto used nc r c)"
    and step: "link_cell used nc r c (ns, last_of (row_upto used nc r c), first_of (row_upto used nc r c))
        = ok (ns', cur', first')"
  shows "rows_frame N nc ns2 ns' \<and> rows_done used nc r ns'
      \<and> opath (Rt ns') (Lf ns') (row_upto used nc r (Suc c))
      \<and> cur' = last_of (row_upto used nc r (Suc c)) \<and> first' = first_of (row_upto used nc r (Suc c))"
proof (cases "used ! (r * nc + c)")
  case None
  then have "ns' = ns" "cur' = last_of (row_upto used nc r c)" "first' = first_of (row_upto used nc r c)"
    using step by (auto simp: link_cell_def bnd_ok_iff arr_get_ok_iff)
  then show ?thesis using fr rd op None by (simp add: row_upto_Suc)
next
  case (Some n)
  define zs where "zs = row_upto used nc r c"
  have zs': "row_upto used nc r (Suc c) = zs @ [n]" by (simp add: row_upto_Suc Some zs_def)
  note d = cells_okD [OF ok]
  have n: "nc < n" "n < nu" "rownum (ns2 ! n) = r" using d(4) [OF r c Some] by simp_all
  have dz: "distinct (zs @ [n])"
    using row_upto_props(1) [OF ok r, of "Suc c"] c by (simp add: zs')
  have sz: "\<And>x. x \<in> set zs \<Longrightarrow> nc < x \<and> x < nu \<and> rownum (ns2 ! x) = r"
    using row_upto_props(2) [OF ok r, of c] c by (auto simp: zs_def)
  have get: "arr_get used (r * nc + c) = ok (Some n)"
    using step Some by (auto simp: link_cell_def bnd_ok_iff arr_get_ok_iff)
  have e: "link_cell used nc r c (ns, last_of zs, first_of zs)
      = (if zs = [] then ok (ns, Some n, Some n)
         else bnd (assign ns (last_of zs) (\<lambda>c. c\<lparr>right := Some n\<rparr>)) (\<lambda>ns.
              bnd (assign ns (Some n) (\<lambda>m. m\<lparr>left := last_of zs\<rparr>)) (\<lambda>ns.
              ok (ns, Some n, first_of zs))))"
    by (simp add: link_cell_def get first_of_def)
  note step' = step [folded zs_def, unfolded e]
  show ?thesis
  proof (cases "zs = []")
    case True
    note k = step' [unfolded if_P [OF True]]
    have "ns' = ns" "cur' = Some n" "first' = Some n" using k by auto
    then show ?thesis using fr rd True by (simp add: zs' first_of_def last_of_def)
  next
    case False
    define a where "a = last zs"
    have az: "a \<in> set zs" using False by (simp add: a_def)
    have a: "nc < a" "a < nu" "rownum (ns2 ! a) = r" using sz [OF az] by simp_all
    have len: "length ns = N" using fr by (simp add: rows_frame_def)
    have al: "a < length ns" "n < length ns" using a n nu len by simp_all
    have la: "last_of zs = Some a" "first_of zs = Some (hd zs)"
      using False by (simp_all add: last_of_def first_of_def a_def)
    have "bnd (assign ns (last_of zs) (\<lambda>c. c\<lparr>right := Some n\<rparr>)) (\<lambda>ns.
              bnd (assign ns (Some n) (\<lambda>m. m\<lparr>left := last_of zs\<rparr>)) (\<lambda>ns.
              ok (ns, Some n, first_of zs)))
        = ok (upd n (\<lambda>m. m\<lparr>left := Some a\<rparr>) (upd a (\<lambda>c. c\<lparr>right := Some n\<rparr>) ns), Some n,
            Some (hd zs))"
      using al by (simp add: la)
    note k = step' [unfolded if_not_P [OF False] this]
    have res: "ns' = upd n (\<lambda>m. m\<lparr>left := Some a\<rparr>) (upd a (\<lambda>c. c\<lparr>right := Some n\<rparr>) ns)"
      "cur' = Some n" "first' = Some (hd zs)"
      using k by auto
    note l = link_row_nodes [OF ok fr rd r nu a n, folded res(1)]
    have "opath (Rt ns') (Lf ns') (zs @ [n])"
    proof (rule opath_snoc [OF op [folded zs_def] False])
      show "distinct zs" "n \<notin> set zs" using dz by simp_all
      show "Rt ns' (last zs) = Some n" using l(3) by (simp add: a_def)
      show "Lf ns' n = Some (last zs)" using l(4) by (simp add: a_def)
      show "\<And>x. x \<in> set zs \<Longrightarrow> x \<noteq> last zs \<Longrightarrow> Rt ns' x = Rt ns x"
        using l(5) by (simp add: a_def)
      show "Lf ns' x = Lf ns x" if "x \<in> set zs" for x
      proof -
        have "x \<noteq> n" using that dz by auto
        then show ?thesis by (rule l(6))
      qed
    qed
    then show ?thesis
      using l(1,2) res(2,3) False by (simp add: zs' first_of_def last_of_def)
  qed
qed


lemma build_row_inv:
  assumes ok: "cells_ok nc nr nu ns2 used" and fr: "rows_frame N nc ns2 ns"
    and rd: "rows_done used nc r ns" and r: "r < nr" and nu: "nu \<le> N"
    and step: "build_row used nc r ns = ok ns'"
  shows "rows_frame N nc ns2 ns' \<and> rows_done used nc (Suc r) ns'"
proof -
  define I where "I c z \<longleftrightarrow> (case z of (a, cur, first) \<Rightarrow>
      rows_frame N nc ns2 a \<and> rows_done used nc r a
      \<and> opath (Rt a) (Lf a) (row_upto used nc r c)
      \<and> cur = last_of (row_upto used nc r c) \<and> first = first_of (row_upto used nc r c))" for c z
  from step obtain a cur first where
    loop: "for_loop 0 nc (link_cell used nc r) (ns, None, None) = ok (a, cur, first)"
    and rest: "(if first \<noteq> None
         then bnd (assign a cur (\<lambda>c. c\<lparr>right := first\<rparr>)) (\<lambda>ns. assign ns first (\<lambda>f. f\<lparr>left := cur\<rparr>))
         else ok a) = ok ns'"
    by (auto simp: build_row_def bnd_ok_iff)
  have "I nc (a, cur, first)"
  proof (rule for_loop_partial [where I = I, OF loop])
    show "I 0 (ns, None, None)"
      using fr rd by (simp add: I_def opath_def last_of_def first_of_def)
    show "0 \<le> nc" by simp
    fix c z z'
    assume c: "c < nc" and i: "I c z" and b: "link_cell used nc r c z = ok z'"
    obtain a1 cur1 first1 where z: "z = (a1, cur1, first1)" by (cases z)
    obtain a2 cur2 first2 where z': "z' = (a2, cur2, first2)" by (cases z')
    have i': "rows_frame N nc ns2 a1" "rows_done used nc r a1"
      "opath (Rt a1) (Lf a1) (row_upto used nc r c)"
      "cur1 = last_of (row_upto used nc r c)" "first1 = first_of (row_upto used nc r c)"
      using i by (simp_all add: I_def z)
    from link_cell_inv [OF ok i'(1,2) r c nu i'(3) b [unfolded z z' i'(4,5)]]
    show "I (Suc c) z'" by (simp add: I_def z')
  qed
  then have a: "rows_frame N nc ns2 a" "rows_done used nc r a"
    "opath (Rt a) (Lf a) (row_upto used nc r nc)"
    "cur = last_of (row_upto used nc r nc)" "first = first_of (row_upto used nc r nc)"
    by (simp_all add: I_def)
  define zs where "zs = row_upto used nc r nc"
  show ?thesis
  proof (cases "zs = []")
    case True
    then have "ns' = a" using rest a(5) by (simp add: first_of_def zs_def)
    moreover have "rows_done used nc (Suc r) a"
      using a(2) True by (auto simp: rows_done_def less_Suc_eq row_ring_def zs_def)
    ultimately show ?thesis using a(1) by simp
  next
    case False
    define h where "h = hd zs"
    define c where "c = last zs"
    have zs: "zs = h # tl zs" using False by (simp add: h_def)
    have sz: "\<And>x. x \<in> set zs \<Longrightarrow> nc < x \<and> x < nu \<and> rownum (ns2 ! x) = r"
      using row_upto_props(2) [OF ok r order_refl] by (auto simp: zs_def)
    have dz: "distinct zs" using row_upto_props(1) [OF ok r order_refl] by (simp add: zs_def)
    have hz: "h \<in> set zs" "c \<in> set zs" using False by (simp_all add: h_def c_def)
    have hf: "nc < h" "h < nu" "rownum (ns2 ! h) = r" using sz [OF hz(1)] by simp_all
    have cf: "nc < c" "c < nu" "rownum (ns2 ! c) = r" using sz [OF hz(2)] by simp_all
    have len: "length a = N" using a(1) by (simp add: rows_frame_def)
    have pc: "cur = Some c" "first = Some h"
      using a(4,5) False by (simp_all add: last_of_def first_of_def zs_def [symmetric] c_def h_def)
    have res: "ns' = upd h (\<lambda>m. m\<lparr>left := Some c\<rparr>) (upd c (\<lambda>c. c\<lparr>right := Some h\<rparr>) a)"
      using rest hf cf nu len unfolding pc by simp
    note l = link_row_nodes [OF ok a(1,2) r nu cf hf, folded res]
    have "dring (Rt ns') (Lf ns') h (tl zs)"
    proof (rule opath_close [where nx = "Rt a" and pv = "Lf a"])
      show "opath (Rt a) (Lf a) (h # tl zs)" using a(3) zs by (simp add: zs_def [symmetric])
      show "distinct (h # tl zs)" using dz zs by simp
      have lz: "last (h # tl zs) = c" unfolding c_def using zs by simp
      show "Rt ns' (last (h # tl zs)) = Some h" unfolding lz by (rule l(3))
      show "Lf ns' h = Some (last (h # tl zs))" unfolding lz by (rule l(4))
      show "\<And>x. x \<in> set (h # tl zs) \<Longrightarrow> x \<noteq> last (h # tl zs) \<Longrightarrow> Rt ns' x = Rt a x"
        unfolding lz by (rule l(5))
      show "Lf ns' x = Lf a x" if "x \<in> set (tl zs)" for x
      proof -
        have "distinct (h # tl zs)" using dz zs by simp
        then have "x \<noteq> h" using that by auto
        then show ?thesis by (rule l(6))
      qed
    qed
    then have "row_ring ns' zs" by (simp add: row_ring_def h_def)
    then have "rows_done used nc (Suc r) ns'"
      using l(2) by (auto simp: rows_done_def less_Suc_eq zs_def)
    then show ?thesis using l(1) by simp
  qed
qed

lemma third_pass:
  assumes ok: "cells_ok nc nr nu ns2 used" and len: "length ns2 = N" and nu: "nu \<le> N"
    and loop: "for_loop 0 nr (build_row used nc) ns2 = ok ns3"
  shows "rows_frame N nc ns2 ns3 \<and> rows_done used nc nr ns3"
proof (rule for_loop_partial [where I = "\<lambda>r a. rows_frame N nc ns2 a \<and> rows_done used nc r a",
      OF loop])
  show "rows_frame N nc ns2 ns2 \<and> rows_done used nc 0 ns2"
    using len by (simp add: rows_frame_def rows_done_def)
  show "0 \<le> nr" by simp
  fix r z z'
  assume "r < nr" "rows_frame N nc ns2 z \<and> rows_done used nc r z" "build_row used nc r z = ok z'"
  then show "rows_frame N nc ns2 z' \<and> rows_done used nc (Suc r) z'"
    using build_row_inv [OF ok _ _ _ nu] by blast
qed


section \<open>The graph after the passes\<close>

text \<open>A ring can be read from each of its nodes.\<close>

lemma ring_rotate:
  assumes "dring nx pv a xs" "n \<in> set (a # xs)"
  shows "chain nx n (rot_at n (a # xs)) n" and "chain pv n (rev (rot_at n (a # xs))) n"
proof -
  have d: "distinct (a # xs)" and c1: "chain nx a xs a" and c2: "chain pv a (rev xs) a"
    using assms(1) by (simp_all add: dring_def)
  have "chain nx n (rot_at n (a # xs)) n \<and> chain pv n (rev (rot_at n (a # xs))) n"
  proof (cases "n = a")
    case True
    have e: "rot_at n (a # xs) = xs" using rot_at_split [of a "[]" xs] True by simp
    show ?thesis unfolding e using c1 c2 True by simp
  next
    case False
    then have "n \<in> set xs" using assms(2) by simp
    from split_list [OF this] obtain us vs where xs: "xs = us @ n # vs" by blast
    have nu: "n \<notin> set (a # us)" using d False by (auto simp: xs)
    have r: "rot_at n (a # xs) = vs @ a # us"
      using rot_at_split [OF nu, of vs] by (simp add: xs)
    have f: "chain nx a us n" "chain nx n vs a" using c1 by (simp_all add: xs chain_append)
    have b: "chain pv a (rev vs) n" "chain pv n (rev us) a" using c2 by (simp_all add: xs chain_append)
    show ?thesis using f b by (simp add: r chain_append)
  qed
  then show "chain nx n (rot_at n (a # xs)) n" "chain pv n (rev (rot_at n (a # xs))) n"
    by blast+
qed

lemma same_cols_refl [simp]: "same_cols nc ns ns"
  by (simp add: same_cols_def)

lemma same_cols_trans: "same_cols nc a b \<Longrightarrow> same_cols nc b c \<Longrightarrow> same_cols nc a c"
  by (simp add: same_cols_def)

text \<open>Unlinking a header from the ring of the headers.\<close>

lemma header_unlink:
  assumes dr: "dring (Rt ns) (Lf ns) nc hs" and c: "c \<in> set hs"
    and lt: "\<And>x. x \<in> set hs \<Longrightarrow> x < nc" and len: "nc < length ns"
  shows "same_cols nc ns (unlink_h c ns)"
    and "dring (Rt (unlink_h c ns)) (Lf (unlink_h c ns)) nc (remove1 c hs)"
    and "bnd (assign ns (left (ns ! c)) (\<lambda>l. l\<lparr>right := right (ns ! c)\<rparr>)) (\<lambda>ns'.
           bnd (deref ns' (Some c)) (\<lambda>h. assign ns' (right h) (\<lambda>r. r\<lparr>left := left h\<rparr>)))
         = ok (unlink_h c ns)"
proof -
  from split_list [OF c] obtain xs ys where hs: "hs = xs @ c # ys" by blast
  have dist: "distinct (nc # xs @ c # ys)" using dr by (simp add: dring_def hs)
  define p where "p = last (nc # xs)"
  define q where "q = hd (ys @ [nc])"
  note nb = dring_neighbours [OF dr [unfolded hs], folded p_def q_def]
  have pq: "p \<le> nc" "q \<le> nc"
  proof -
    have "p \<in> set (nc # hs)" "q \<in> set (nc # hs)" using nb(7,8) by (auto simp: hs)
    then show "p \<le> nc" "q \<le> nc" using lt by (auto simp: less_imp_le)
  qed
  have cnc: "c < nc" by (rule lt [OF c])
  have plen: "p < length ns" "q < length ns" "c < length ns" using pq len cnc by simp_all
  have lr: "left (ns ! c) = Some p" "right (ns ! c) = Some q" "p \<noteq> c" "q \<noteq> c"
    using nb(1,2,5,6) by (simp_all add: Rt_def Lf_def)
  define h1 where "h1 = upd p (\<lambda>l. l\<lparr>right := Some q\<rparr>) ns"
  define h where "h = upd q (\<lambda>r. r\<lparr>left := Some p\<rparr>) h1"
  have hc: "h1 ! c = ns ! c" using lr(3) by (simp add: h1_def)
  have hu: "unlink_h c ns = h"
    using lr by (simp add: unlink_h_def Let_def h_def h1_def)
  have nth1: "h1 ! i = (if i = p then (ns ! p)\<lparr>right := Some q\<rparr> else ns ! i)" for i
    using plen by (simp add: h1_def)
  have nth: "h ! i = (if i = q then (h1 ! q)\<lparr>left := Some p\<rparr> else h1 ! i)" for i
    using plen by (simp add: h_def h1_def)
  have len1: "length h1 = length ns" and lenh: "length h = length ns" by (simp_all add: h_def h1_def)
  show "same_cols nc ns (unlink_h c ns)"
    unfolding hu using pq by (auto simp: same_cols_def nth nth1 lenh)
  have r1: "remove1 c hs = xs @ ys" unfolding hs by (rule remove1_split) (use dist in auto)
  have e: "Rt h = (Rt ns)(p := Some q)" "Lf h = (Lf ns)(q := Some p)"
    using plen by (auto simp: Rt_def Lf_def fun_eq_iff nth nth1)
  show "dring (Rt (unlink_h c ns)) (Lf (unlink_h c ns)) nc (remove1 c hs)"
    unfolding hu r1 e p_def q_def by (rule dring_unlink [OF dr [unfolded hs]])
  show "bnd (assign ns (left (ns ! c)) (\<lambda>l. l\<lparr>right := right (ns ! c)\<rparr>)) (\<lambda>ns'.
           bnd (deref ns' (Some c)) (\<lambda>h. assign ns' (right h) (\<lambda>r. r\<lparr>left := left h\<rparr>)))
         = ok (unlink_h c ns)"
    unfolding hu using plen lr hc len1 by (simp add: h1_def [symmetric] h_def)
qed


text \<open>The last pass takes the headers of the empty columns out of the ring.\<close>

lemma fourth_pass:
  assumes dr: "dring (Rt ns3) (Lf ns3) nc [0..<nc]" and len: "nc < length ns3"
    and loop: "for_loop 0 nc drop_empty ns3 = ok ns4"
  shows "same_cols nc ns3 ns4
     \<and> dring (Rt ns4) (Lf ns4) nc (filter (\<lambda>x. count (ns3 ! x) \<noteq> 0) [0..<nc])"
proof -
  define hs where "hs c = filter (\<lambda>x. c \<le> x \<or> count (ns3 ! x) \<noteq> 0) [0..<nc]" for c
  define I where "I c a \<longleftrightarrow> same_cols nc ns3 a \<and> dring (Rt a) (Lf a) nc (hs c)" for c a
  have "I nc ns4"
  proof (rule for_loop_partial [where I = I, OF loop])
    have "hs 0 = [0..<nc]" by (simp add: hs_def)
    then show "I 0 ns3" using dr by (simp add: I_def)
    show "0 \<le> nc" by simp
    fix c a a'
    assume c: "c < nc" and i: "I c a" and b: "drop_empty c a = ok a'"
    have sc: "same_cols nc ns3 a" and da: "dring (Rt a) (Lf a) nc (hs c)"
      using i by (simp_all add: I_def)
    have la: "length a = length ns3" and cnt: "count (a ! c) = count (ns3 ! c)"
      using sc by (simp_all add: same_cols_def)
    have cl: "c < length a" using c len la by simp
    show "I (Suc c) a'"
    proof (cases "count (ns3 ! c) = 0")
      case True
      have cin: "c \<in> set (hs c)" using c by (simp add: hs_def)
      have lt: "\<And>x. x \<in> set (hs c) \<Longrightarrow> x < nc" by (simp add: hs_def)
      have l: "nc < length a" using len la by simp
      note u = header_unlink [OF da cin lt l]
      have "a' = unlink_h c a"
        using b cl True cnt u(3) by (simp add: drop_empty_def)
      moreover have "remove1 c (hs c) = hs (Suc c)"
      proof -
        have "distinct (hs c)" by (simp add: hs_def)
        then have "remove1 c (hs c) = removeAll c (hs c)" by (rule distinct_remove1_removeAll)
        also have "\<dots> = filter (\<lambda>x. c \<noteq> x) (hs c)" by (simp add: removeAll_filter_not_eq)
        also have "\<dots> = hs (Suc c)"
          unfolding hs_def filter_filter using True by (intro filter_cong) auto
        finally show ?thesis .
      qed
      ultimately show ?thesis using u(1,2) sc by (auto simp: I_def intro: same_cols_trans)
    next
      case False
      then have "a' = a" using b cl cnt by (simp add: drop_empty_def)
      moreover have "hs (Suc c) = hs c"
        unfolding hs_def using False by (intro filter_cong) (auto simp: Suc_le_eq le_less)
      ultimately show ?thesis using i by (simp add: I_def)
    qed
  qed
  moreover have "hs nc = filter (\<lambda>x. count (ns3 ! x) \<noteq> 0) [0..<nc]"
    unfolding hs_def by (intro filter_cong) auto
  ultimately show ?thesis by (simp add: I_def)
qed


text \<open>The graph that \<^verbatim>\<open>solver_init_graph\<close> returns satisfies the invariant of the search.\<close>

lemma init_graph_ginv:
  assumes init: "solver_init_graph (solver_create inuse nc nr) cells strict = ok s"
    and bound: "inuse + nc + 1 < 2 ^ 63"
  shows "root s = Some nc" and "2 \<le> nc" and "\<exists>DN row V hs. ginv nc DN row (nodes s) V hs"
proof -
  define N where "N = inuse + nc + 1"
  have N: "N < 2 ^ 63" "nc < N" using bound by (simp_all add: N_def)
  from init obtain a b z2 ns3 ns4 where
    lh: "link_headers nc (replicate N null_node) = ok a" and lr: "link_root nc a = ok b"
    and p2': "for_loop 0 nc (build_column cells nc nr) (b, Suc nc, replicate (nc * nr) None) = ok z2"
    and p3': "for_loop 0 nr (build_row (snd (snd z2)) nc) (fst z2) = ok ns3"
    and p4: "(if \<not> strict then for_loop 0 nc drop_empty ns3 else ok ns3) = ok ns4"
    and s: "s = (solver_create inuse nc nr)\<lparr>root := Some nc, nodes := ns4\<rparr>"
    by (auto simp: solver_init_graph_def solver_create_def Let_def bnd_ok_iff N_def
        split: prod.splits)
  obtain ns2 nu used where z2: "z2 = (ns2, nu, used)" by (cases z2)
  note p2 = p2' [unfolded z2]
  have p3: "for_loop 0 nr (build_row used nc) ns2 = ok ns3" using p3' by (simp add: z2)
  show "root s = Some nc" by (simp add: s)
  have ns: "nodes s = ns4" by (simp add: s)
  note fp = first_pass [OF lh lr N]
  show "2 \<le> nc" by (rule fp(1))
  from second_pass [OF fp(2) N(1) p2] obtain V where
    fr: "frame N nc nr b ns2 nu used" and dc: "done_cols nc V nc ns2 nu"
    and cu: "cells_used nc nr V nc [] ns2 nu used"
    by blast
  have ok: "cells_ok nc nr nu ns2 used" by (rule cells_used_ok [OF dc cu])
  note d = cells_okD [OF ok]
  have len2: "length ns2 = N" and nuN: "nu \<le> N"
    and lr2: "\<And>i. left (ns2 ! i) = left (b ! i) \<and> right (ns2 ! i) = right (b ! i)"
    using fr by (simp_all add: frame_def)
  from third_pass [OF ok len2 nuN p3]
  have rf: "rows_frame N nc ns2 ns3" and rd: "rows_done used nc nr ns3" by simp_all
  have len3: "length ns3 = N"
    and v3: "\<And>i. up (ns3 ! i) = up (ns2 ! i) \<and> down (ns3 ! i) = down (ns2 ! i)
            \<and> column (ns3 ! i) = column (ns2 ! i) \<and> count (ns3 ! i) = count (ns2 ! i)
            \<and> rownum (ns3 ! i) = rownum (ns2 ! i)"
    and lr3: "\<And>i. i \<le> nc \<Longrightarrow> left (ns3 ! i) = left (ns2 ! i) \<and> right (ns3 ! i) = right (ns2 ! i)"
    using rf by (simp_all add: rows_frame_def)
  define DN where "DN = {n. nc < n \<and> n < nu}"
  define row where "row n = row_upto used nc (rownum (ns2 ! n)) nc" for n
  have rowset: "set (row n) = {m. nc < m \<and> m < nu \<and> rownum (ns2 ! m) = rownum (ns2 ! n)}"
    if n: "n \<in> DN" for n
  proof -
    have r: "rownum (ns2 ! n) < nr" using d(2) n by (simp add: DN_def)
    show ?thesis
      unfolding row_def row_upto_props(2) [OF ok r order_refl] using d(1) by auto
  qed
  have st_n: "nc < n \<and> n < length ns3 \<and> n \<in> set (row n) \<and> set (row n) \<subseteq> DN
           \<and> distinct (row n) \<and> (\<forall>m\<in>set (row n). row m = row n)
           \<and> (\<exists>c<nc. column (ns3 ! n) = Some c)
           \<and> inj_on (\<lambda>m. column (ns3 ! m)) (set (row n))
           \<and> chain (Rt ns3) n (others row n) n \<and> chain (Lf ns3) n (rev (others row n)) n"
    if n: "n \<in> DN" for n
  proof -
    have n': "nc < n" "n < nu" using n by (simp_all add: DN_def)
    have r: "rownum (ns2 ! n) < nr" by (rule d(2) [OF n'])
    have 1: "nc < n" by fact
    have 2: "n < length ns3" using n' nuN len3 by simp
    have 3: "n \<in> set (row n)" using n' by (simp add: rowset [OF n])
    have 4: "set (row n) \<subseteq> DN" by (auto simp: rowset [OF n] DN_def)
    have 5: "distinct (row n)" unfolding row_def by (rule row_upto_props(1) [OF ok r order_refl])
    have 6: "\<forall>m\<in>set (row n). row m = row n"
    proof
      fix m assume "m \<in> set (row n)"
      then have "rownum (ns2 ! m) = rownum (ns2 ! n)" by (simp add: rowset [OF n])
      then show "row m = row n" by (simp add: row_def)
    qed
    have 7: "\<exists>c<nc. column (ns3 ! n) = Some c" using d(1) [OF n'] by (simp add: v3)
    have 8: "inj_on (\<lambda>m. column (ns3 ! m)) (set (row n))"
    proof (rule inj_onI)
      fix x y assume x: "x \<in> set (row n)" and y: "y \<in> set (row n)"
        and e: "column (ns3 ! x) = column (ns3 ! y)"
      have x': "nc < x" "x < nu" "rownum (ns2 ! x) = rownum (ns2 ! n)"
        and y': "nc < y" "y < nu" "rownum (ns2 ! y) = rownum (ns2 ! n)"
        using x y by (simp_all add: rowset [OF n])
      have cx: "column (ns3 ! x) = column (ns2 ! x)" and cy: "column (ns3 ! y) = column (ns2 ! y)"
        using v3 [of x] v3 [of y] by blast+
      have cxy: "column (ns2 ! x) = column (ns2 ! y)" using e unfolding cx cy .
      note ux = d(3) [OF x'(1,2), unfolded x'(3) cxy]
      note uy = d(3) [OF y'(1,2), unfolded y'(3)]
      have "Some x = Some y" using ux uy by (rule trans [OF sym])
      then show "x = y" by simp
    qed
    have "row_ring ns3 (row n)" using rd r by (simp add: rows_done_def row_def)
    moreover have ne: "row n \<noteq> []" using 3 by auto
    ultimately have dr: "dring (Rt ns3) (Lf ns3) (hd (row n)) (tl (row n))"
      by (simp add: row_ring_def)
    have "n \<in> set (hd (row n) # tl (row n))" using 3 ne by simp
    from ring_rotate [OF dr this]
    have 9: "chain (Rt ns3) n (others row n) n" and 10: "chain (Lf ns3) n (rev (others row n)) n"
      using ne by (simp_all add: others_def)
    from 1 2 3 4 5 6 7 8 9 10 show ?thesis by (intro conjI) assumption+
  qed
  have l3: "nc < length ns3" "length ns3 < 2 ^ 64"
    using N len3 pow63_less [of N] by simp_all
  have st3: "static nc DN row ns3"
    unfolding static_def
    apply (rule conjI [OF l3(1)])
    apply (rule conjI [OF l3(2)])
    apply (rule ballI)
    apply (erule st_n)
    done
  have co3: "cols_ok nc DN ns3 V"
    unfolding cols_ok_def
  proof (intro allI impI)
    fix c assume c: "c < nc"
    have v: "vring ns2 c (V c)" and sub: "set (V c) \<subseteq> {nc<..<nu}"
      using dc c by (simp_all add: done_cols_def)
    have "vring ns3 c (V c) = vring ns2 c (V c)" by (rule vring_cong) (simp add: v3)
    then show "vring ns3 c (V c) \<and> set (V c) \<subseteq> DN" using v sub by (auto simp: DN_def)
  qed
  have hr3: "dring (Rt ns3) (Lf ns3) nc [0..<nc]"
  proof -
    have "dring (Rt ns3) (Lf ns3) nc [0..<nc] = dring (Rt b) (Lf b) nc [0..<nc]"
    proof (rule dring_cong)
      fix x assume "x \<in> set (nc # [0..<nc])"
      then have "x \<le> nc" by auto
      then show "Rt ns3 x = Rt b x \<and> Lf ns3 x = Lf b x"
        using lr3 [of x] lr2 [of x] by (simp add: Rt_def Lf_def)
    qed
    then show ?thesis using headers_linked_ring [OF fp(2)] by simp
  qed
  have inV: "\<exists>c<nc. m \<in> set (V c)" if "m \<in> DN" for m
    using cu that by (auto simp: cells_used_def DN_def)
  show "\<exists>DN row V hs. ginv nc DN row (nodes s) V hs"
  proof (cases strict)
    case True
    then have e: "ns4 = ns3" using p4 by simp
    have "ginv nc DN row ns3 V [0..<nc]"
      unfolding ginv_def
    proof (intro conjI ballI)
      show "static nc DN row ns3" by fact
      show "cols_ok nc DN ns3 V" by fact
      show "dring (Rt ns3) (Lf ns3) nc [0..<nc]" by fact
      show "\<And>c. c \<in> set [0..<nc] \<Longrightarrow> c < nc" by simp
      fix c n m assume "c \<in> set [0..<nc]" "n \<in> set (V c)" "m \<in> set (row n)"
      then have "n \<in> DN" using co3 by (auto simp: cols_ok_def)
      then have "m \<in> DN" using st_n [of n] \<open>m \<in> set (row n)\<close> by blast
      from inV [OF this] show "\<exists>c'\<in>set [0..<nc]. m \<in> set (V c')" by auto
    qed
    then show ?thesis unfolding ns e by blast
  next
    case False
    then have p4': "for_loop 0 nc drop_empty ns3 = ok ns4" using p4 by simp
    define hs where "hs = filter (\<lambda>x. count (ns3 ! x) \<noteq> 0) [0..<nc]"
    from fourth_pass [OF hr3 l3(1) p4']
    have sc: "same_cols nc ns3 ns4" and hr4: "dring (Rt ns4) (Lf ns4) nc hs"
      by (simp_all add: hs_def)
    have "ginv nc DN row ns4 V hs"
      unfolding ginv_def
    proof (intro conjI ballI)
      show "static nc DN row ns4" by (rule same_cols_static [OF sc st3])
      show "cols_ok nc DN ns4 V" by (rule same_cols_cols_ok [OF sc co3])
      show "dring (Rt ns4) (Lf ns4) nc hs" by fact
      show "\<And>c. c \<in> set hs \<Longrightarrow> c < nc" by (simp add: hs_def)
      fix c n m assume c: "c \<in> set hs" and n: "n \<in> set (V c)" and m: "m \<in> set (row n)"
      have "c < nc" using c by (simp add: hs_def)
      then have "n \<in> DN" using co3 n by (auto simp: cols_ok_def)
      then have "m \<in> DN" using st_n [of n] m by blast
      from inV [OF this] obtain c' where c': "c' < nc" "m \<in> set (V c')" by blast
      have "count (ns3 ! c') = length (V c')" using co3 c'(1) by (simp add: cols_ok_def vring_def)
      then have "count (ns3 ! c') \<noteq> 0" using c'(2) by (cases "V c'") auto
      then have "c' \<in> set hs" using c'(1) by (simp add: hs_def)
      then show "\<exists>c'\<in>set hs. m \<in> set (V c')" using c'(2) by blast
    qed
    then show ?thesis unfolding ns by blast
  qed
qed


section \<open>The round trip of \<^verbatim>\<open>cover\<close> and \<^verbatim>\<open>uncover\<close>\<close>

text \<open>
  \<^verbatim>\<open>cover\<close> of a live column succeeds, \<^verbatim>\<open>uncover\<close> of the same column restores the arena,
  and the covered graph satisfies the invariant again, without the column and without
  the rows that meet it.
\<close>

lemma cover_uncover:
  assumes inv: "ginv nc DN row ns V hs" and c: "c \<in> set hs"
  defines "ns' \<equiv> cover_rows row (V c) (unlink_h c ns)"
  shows "cover ns (Some c) = ok ns'"
    and "uncover ns' (Some c) = ok ns"
    and "ginv nc DN row ns' (\<lambda>x. filter (\<lambda>n. n \<notin> rowset row (V c)) (V x)) (remove1 c hs)"
proof -
  note g = ginvD [OF inv]
  have cnc: "c < nc" by (rule g(4) [OF c])
  have len: "nc < length ns" using static_len [OF g(1)] by blast
  from split_list [OF c] obtain xs ys where hs: "hs = xs @ c # ys" by blast
  have dist: "distinct (nc # xs @ c # ys)" using g(3) by (simp add: dring_def hs)
  define p where "p = last (nc # xs)"
  define q where "q = hd (ys @ [nc])"
  note nb = dring_neighbours [OF g(3) [unfolded hs], folded p_def q_def]
  have pq: "p \<le> nc" "q \<le> nc"
  proof -
    have "p \<in> set (nc # hs)" "q \<in> set (nc # hs)" using nb(7,8) by (auto simp: hs)
    then show "p \<le> nc" "q \<le> nc" using g(4) by (auto simp: less_imp_le)
  qed
  have plen: "p < length ns" "q < length ns" "c < length ns" using pq len cnc by simp_all
  have lr: "left (ns ! c) = Some p" "right (ns ! c) = Some q"
    "right (ns ! p) = Some c" "left (ns ! q) = Some c" "p \<noteq> c" "q \<noteq> c"
    using nb(1-6) by (simp_all add: Rt_def Lf_def)
  define h1 where "h1 = upd p (\<lambda>l. l\<lparr>right := Some q\<rparr>) ns"
  define h where "h = upd q (\<lambda>r. r\<lparr>left := Some p\<rparr>) h1"
  have hc: "h1 ! c = ns ! c" "h ! c = ns ! c" using lr(5,6) by (simp_all add: h1_def h_def)
  have hu: "unlink_h c ns = h"
    using lr by (simp add: unlink_h_def Let_def h_def h1_def)
  have nth1: "h1 ! i = (if i = p then (ns ! p)\<lparr>right := Some q\<rparr> else ns ! i)" for i
    using plen by (simp add: h1_def)
  have nth: "h ! i = (if i = q then (h1 ! q)\<lparr>left := Some p\<rparr> else h1 ! i)" for i
    using plen by (simp add: h_def h1_def)
  have lenh: "length h = length ns" by (simp add: h_def h1_def)
  have sc: "same_cols nc ns h"
    using pq by (auto simp: same_cols_def nth nth1 lenh)
  have sth: "static nc DN row h" by (rule same_cols_static [OF sc g(1)])
  have coh: "cols_ok nc DN h V" by (rule same_cols_cols_ok [OF sc g(2)])
  have live: "\<forall>r\<in>set (V c). \<forall>m\<in>set (others row r). \<exists>c'<nc. m \<in> set (V c')"
  proof (intro ballI)
    fix r m assume r: "r \<in> set (V c)" and m: "m \<in> set (others row r)"
    have "r \<in> DN" using vringD(6) [OF g(2) cnc] r by blast
    then have "m \<in> set (row r)" using others_props(3) [OF g(1)] m by blast
    from g(5) [OF c r this] obtain c' where "c' \<in> set hs" "m \<in> set (V c')" by blast
    then show "\<exists>c'<nc. m \<in> set (V c')" using g(4) by blast
  qed
  have ns'_h: "ns' = cover_rows row (V c) h" by (simp add: ns'_def hu)
  note cb = col_bracket [OF sth coh cnc live, folded ns'_h]
  have len': "length ns' = length ns" "length h = length ns"
    using cb(3) by (simp_all add: same_rows_def lenh)
  have len1: "length h1 = length ns" by (simp add: h1_def)
  have c1: "assign ns (Some p) (\<lambda>l. l\<lparr>right := Some q\<rparr>) = ok h1"
    using plen by (simp add: h1_def)
  have c2: "assign h1 (Some q) (\<lambda>r. r\<lparr>left := Some p\<rparr>) = ok h"
    using plen len1 by (simp add: h_def)
  show "cover ns (Some c) = ok ns'"
    using plen lr cb(1) hc len1 lenh c1 c2 by (simp add: cover_def)
  have "upd q (\<lambda>r. r\<lparr>left := Some c\<rparr>) (upd p (\<lambda>l. l\<lparr>right := Some c\<rparr>) h) = ns"
    (is "?k = ns")
  proof (rule nth_equalityI)
    show "length ?k = length ns" by (simp add: len')
    fix i assume "i < length ?k"
    have k: "?k ! i = (if i = q then ((upd p (\<lambda>l. l\<lparr>right := Some c\<rparr>) h) ! q)\<lparr>left := Some c\<rparr>
        else (upd p (\<lambda>l. l\<lparr>right := Some c\<rparr>) h) ! i)"
      using plen len' by simp
    have k1: "(upd p (\<lambda>l. l\<lparr>right := Some c\<rparr>) h) ! j
        = (if j = p then (h ! p)\<lparr>right := Some c\<rparr> else h ! j)" for j
      using plen len' by simp
    show "?k ! i = ns ! i"
      by (rule node_eqI) (use lr in \<open>auto simp: k k1 nth nth1\<close>)
  qed
  then show "uncover ns' (Some c) = ok ns"
    using plen lr cb(2) hc len' by (simp add: uncover_def)
  show "ginv nc DN row ns' (\<lambda>x. filter (\<lambda>n. n \<notin> rowset row (V c)) (V x)) (remove1 c hs)"
    unfolding ginv_def
  proof (intro conjI)
    show "static nc DN row ns'" by (rule same_rows_static [OF cb(3) sth])
    show "cols_ok nc DN ns' (\<lambda>x. filter (\<lambda>n. n \<notin> rowset row (V c)) (V x))" by (rule cb(4))
    have r1: "remove1 c hs = xs @ ys" unfolding hs by (rule remove1_split) (use dist in auto)
    have e: "Rt ns' = (Rt ns)(p := Some q)" "Lf ns' = (Lf ns)(q := Some p)"
      using cb(3) plen by (auto simp: same_rows_def Rt_def Lf_def fun_eq_iff nth nth1)
    show "dring (Rt ns') (Lf ns') nc (remove1 c hs)"
      unfolding r1 e p_def q_def by (rule dring_unlink [OF g(3) [unfolded hs]])
    show "\<forall>c\<in>set (remove1 c hs). c < nc" using g(4) by (auto dest: notin_set_remove1)
    show "\<forall>c1\<in>set (remove1 c hs). \<forall>n\<in>set (filter (\<lambda>n. n \<notin> rowset row (V c)) (V c1)).
        \<forall>m\<in>set (row n). \<exists>c'\<in>set (remove1 c hs). m \<in> set (filter (\<lambda>n. n \<notin> rowset row (V c)) (V c'))"
    proof (intro ballI)
      fix c1 n m
      assume c1: "c1 \<in> set (remove1 c hs)"
        and n: "n \<in> set (filter (\<lambda>n. n \<notin> rowset row (V c)) (V c1))" and m: "m \<in> set (row n)"
      have c1h: "c1 \<in> set hs" "c1 \<noteq> c" using c1 dist by (auto simp: r1 hs)
      have nV: "n \<in> set (V c1)" and nR: "n \<notin> rowset row (V c)" using n by simp_all
      have c1n: "c1 < nc" by (rule g(4) [OF c1h(1)])
      have nD: "n \<in> DN" using vringD(6) [OF g(2) c1n] nV by blast
      have coln: "column (ns ! n) = Some c1" using vringD(5) [OF g(2) c1n] nV by blast
      have rm: "row m = row n" by (rule bspec [OF staticD(6) [OF g(1) nD] m])
      have nn: "n \<in> set (row n)" by (rule staticD(3) [OF g(1) nD])
      have notc: "n \<in> set (row r) \<Longrightarrow> r \<in> set (V c) \<Longrightarrow> False" for r
      proof -
        assume a: "n \<in> set (row r)" "r \<in> set (V c)"
        have rD: "r \<in> DN" using vringD(6) [OF g(2) cnc] a(2) by blast
        have "column (ns ! r) = Some c" using vringD(5) [OF g(2) cnc] a(2) by blast
        then have "n \<noteq> r" using coln c1h(2) by auto
        then have "n \<in> set (others row r)" using others_props(3) [OF g(1) rD] a(1) by blast
        then show False using nR a(2) by (auto simp: rowset_def)
      qed
      from g(5) [OF c1h(1) nV m] obtain c2 where c2: "c2 \<in> set hs" "m \<in> set (V c2)" by blast
      have c2n: "c2 < nc" by (rule g(4) [OF c2(1)])
      have mD: "m \<in> set (row m)" "m \<in> DN"
        using vringD(6) [OF g(2) c2n] c2(2) staticD(3) [OF g(1)] by blast+
      have "c2 \<noteq> c"
      proof
        assume "c2 = c"
        then have "m \<in> set (V c)" using c2(2) by simp
        moreover have "n \<in> set (row m)" using nn rm by simp
        ultimately show False using notc by blast
      qed
      then have "c2 \<in> set (remove1 c hs)" using c2(1) by simp
      moreover have "m \<notin> rowset row (V c)"
      proof
        assume "m \<in> rowset row (V c)"
        then obtain r where r: "r \<in> set (V c)" "m \<in> set (others row r)"
          by (auto simp: rowset_def)
        have rD: "r \<in> DN" using vringD(6) [OF g(2) cnc] r(1) by blast
        have "m \<in> set (row r)" using others_props(3) [OF g(1) rD] r(2) by blast
        then have "row m = row r" by (rule bspec [OF staticD(6) [OF g(1) rD]])
        then have "n \<in> set (row r)" using nn rm by simp
        then show False using notc r(1) by blast
      qed
      ultimately show "\<exists>c'\<in>set (remove1 c hs). m \<in> set (filter (\<lambda>n. n \<notin> rowset row (V c)) (V c'))"
        using c2(2) by auto
    qed
  qed
qed


text \<open>
  The live columns are those that \<^verbatim>\<open>search\<close> finds when it walks the ring of the root
  to the right (\<^verbatim>\<open>c = s->root->right; c != s->root; c = c->right\<close>).
\<close>

inductive live :: "node list \<Rightarrow> nat \<Rightarrow> nat \<Rightarrow> bool" for ns rt where
  first: "right (ns ! rt) = Some c \<Longrightarrow> c \<noteq> rt \<Longrightarrow> live ns rt c"
| later: "live ns rt b \<Longrightarrow> right (ns ! b) = Some c \<Longrightarrow> c \<noteq> rt \<Longrightarrow> live ns rt c"

text \<open>
  The states of the graph during the search.  \<^verbatim>\<open>search\<close> changes the graph only through
  \<^verbatim>\<open>cover\<close> and \<^verbatim>\<open>uncover\<close>: it covers live columns (the column it chooses, and the
  columns of the other nodes of the row it tries) and it uncovers the columns in the
  reverse order.  A state is the arena with the stack of the columns that are covered.
\<close>

inductive reachable :: "solver \<Rightarrow> node list \<times> nat list \<Rightarrow> bool" for s where
  start: "reachable s (nodes s, [])"
| covered: "reachable s (ns, st) \<Longrightarrow> root s = Some rt \<Longrightarrow> live ns rt c
     \<Longrightarrow> cover ns (Some c) = ok ns' \<Longrightarrow> reachable s (ns', c # st)"
| uncovered: "reachable s (ns, c # st) \<Longrightarrow> uncover ns (Some c) = ok ns'
     \<Longrightarrow> reachable s (ns', st)"

lemma live_header:
  assumes "dring (Rt ns) (Lf ns) rt hs" "live ns rt c"
  shows "c \<in> set hs"
  using assms(2)
proof (induction rule: live.induct)
  case (first c)
  have "Rt ns rt = Some (hd (hs @ [rt]))"
    by (rule chain_hd) (use assms(1) in \<open>simp add: dring_def\<close>)
  then have "c = hd (hs @ [rt])" using first by (simp add: Rt_def)
  then show ?case using first(2) by (cases hs) auto
next
  case (later b c)
  from split_list [OF later.IH] obtain xs ys where hs: "hs = xs @ b # ys" by blast
  from dring_neighbours(1) [OF assms(1) [unfolded hs]]
  have "Rt ns b = Some (hd (ys @ [rt]))" .
  then have "c = hd (ys @ [rt])" using later by (simp add: Rt_def)
  then show ?case using later(3) by (cases ys) (auto simp: hs)
qed

text \<open>The states that are made of covers only; every reachable state is one of them.\<close>

inductive covers :: "nat \<Rightarrow> node list \<Rightarrow> node list \<times> nat list \<Rightarrow> bool" for nc ns0 where
  none: "covers nc ns0 (ns0, [])"
| more: "covers nc ns0 (ns, st) \<Longrightarrow> live ns nc c \<Longrightarrow> cover ns (Some c) = ok ns'
     \<Longrightarrow> covers nc ns0 (ns', c # st)"

lemma covers_ginv:
  assumes "covers nc ns0 z" "\<exists>DN row V hs. ginv nc DN row ns0 V hs"
  shows "\<exists>DN row V hs. ginv nc DN row (fst z) V hs"
  using assms
proof (induction rule: covers.induct)
  case none
  then show ?case by simp
next
  case (more ns st c ns')
  then obtain DN row V hs where g: "ginv nc DN row ns V hs" by auto
  have c: "c \<in> set hs" by (rule live_header [OF ginvD(3) [OF g] more(2)])
  from cover_uncover(1,3) [OF g c] more(3) show ?case by auto
qed

lemma reachable_covers:
  assumes "reachable s z" "root s = Some nc" "\<exists>DN row V hs. ginv nc DN row (nodes s) V hs"
  shows "covers nc (nodes s) z"
  using assms
proof (induction rule: reachable.induct)
  case start
  show ?case by (rule covers.none)
next
  case (covered ns st rt c ns')
  then show ?case by (auto intro: covers.more)
next
  case (uncovered ns c st ns')
  then have "covers nc (nodes s) (ns, c # st)" by simp
  then obtain ns1 where 1: "covers nc (nodes s) (ns1, st)" "live ns1 nc c"
    "cover ns1 (Some c) = ok ns"
    by (cases rule: covers.cases) auto
  from covers_ginv [OF 1(1) uncovered.prems(2)]
  obtain DN row V hs where g: "ginv nc DN row ns1 V hs" by auto
  have c: "c \<in> set hs" by (rule live_header [OF ginvD(3) [OF g] 1(2)])
  from cover_uncover(1,2) [OF g c] 1(3) uncovered(2) have "ns' = ns1" by simp
  then show ?case using 1(1) by simp
qed

text \<open>
  Claim C4.  Let \<open>s\<close> be the solver that \<^verbatim>\<open>solver_init_graph\<close> returns for a matrix, in
  strict or in relaxed mode, where the arena of \<open>inuse + ncols + 1\<close> nodes fits the address
  space (a node takes more than one byte, so there are fewer than \<open>2 ^ 63\<close> of them).
  In every state \<open>ns\<close> of the graph that is reachable during the search, and for every
  live column \<open>c\<close>, \<^verbatim>\<open>cover(c)\<close> returns a state \<open>ns'\<close> and \<^verbatim>\<open>uncover(c)\<close>, run on \<open>ns'\<close>,
  returns \<open>ns\<close>: the arena after the round trip is the arena before it, node by node
  and field by field (the four links, the column pointer, the count and the row
  number).
\<close>

theorem cover_uncover_restores:
  assumes "solver_init_graph (solver_create inuse nc nr) cells strict = ok s"
    and "inuse + nc + 1 < 2 ^ 63"
    and "reachable s (ns, st)" and "root s = Some rt" and "live ns rt c"
  shows "\<exists>ns'. cover ns (Some c) = ok ns' \<and> uncover ns' (Some c) = ok ns"
proof -
  note i = init_graph_ginv [OF assms(1,2)]
  have rt: "rt = nc" using i(1) assms(4) by simp
  from covers_ginv [OF reachable_covers [OF assms(3) i(1) i(3)] i(3)]
  obtain DN row V hs where g: "ginv nc DN row ns V hs" by auto
  have c: "c \<in> set hs" by (rule live_header [OF ginvD(3) [OF g] assms(5) [unfolded rt]])
  from cover_uncover(1,2) [OF g c] show ?thesis by blast
qed

text \<open>
  An instance: the graph of the matrix \<open>stale_cells\<close> after the cover of its column 0,
  where the column 1 is live.
\<close>

theorem cover_uncover_restores_witness:
  "\<exists>s ns. solver_init_graph (solver_create 11 4 5) stale_cells False = ok s
     \<and> reachable s (ns, [0]) \<and> root s = Some 4 \<and> live ns 4 1
     \<and> (\<exists>ns'. cover ns (Some 1) = ok ns' \<and> uncover ns' (Some 1) = ok ns)"
proof -
  have "\<exists>s ns. solver_init_graph (solver_create 11 4 5) stale_cells False = ok s
      \<and> cover (nodes s) (Some 0) = ok ns \<and> root s = Some 4
      \<and> right (nodes s ! 4) = Some 0 \<and> right (ns ! 4) = Some 1"
    by (simp add: solver_eval stale_cells_def)
  then obtain s ns where
    i: "solver_init_graph (solver_create 11 4 5) stale_cells False = ok s"
    and c: "cover (nodes s) (Some 0) = ok ns" and rt: "root s = Some 4"
    and r0: "right (nodes s ! 4) = Some 0" and r1: "right (ns ! 4) = Some 1"
    by blast
  have b: "(11::nat) + 4 + 1 < 2 ^ 63" by simp
  have l0: "live (nodes s) 4 0" by (rule live.first [OF r0]) simp
  have re: "reachable s (ns, [0])" by (rule reachable.covered [OF reachable.start rt l0 c])
  have l1: "live ns 4 1" by (rule live.first [OF r1]) simp
  from cover_uncover_restores [OF i b re rt l1] i re rt l1 show ?thesis by blast
qed

end
